theory Spec2Isabelle
  imports Main
begin

section \<open>Strings and the string primitives the program uses\<close>

text \<open>
  A JavaScript string is a sequence of code units. A \<^typ>\<open>char\<close> stands for a code unit
  in the range 0..255, and \<^typ>\<open>string\<close> for a JavaScript string over that range.
  The backslash is written \<open>CHR 0x5C\<close>, the tab \<open>CHR 0x09\<close> and the line break
  \<open>CHR 0x0A\<close>.
\<close>

definition is_space :: "char \<Rightarrow> bool" where
  \<comment> \<open>The code units below 256 that the regular expression class \<open>\s\<close> matches, which are
      also the ones \<open>String.prototype.trim\<close> strips: tab, line feed, vertical tab, form
      feed, carriage return, space and no-break space.\<close>
  "is_space c = (c \<in> set [CHR 0x09, CHR 0x0A, CHR 0x0B, CHR 0x0C, CHR 0x0D, CHR 0x20, CHR 0xA0])"

definition startsWith :: "string \<Rightarrow> string \<Rightarrow> bool" where
  \<comment> \<open>\<open>s.startsWith(p)\<close>\<close>
  "startsWith s p = (take (length p) s = p)"

fun includes_str :: "string \<Rightarrow> string \<Rightarrow> bool" where
  \<comment> \<open>\<open>s.includes(p)\<close>: \<open>p\<close> occurs in \<open>s\<close> at some position\<close>
  "includes_str [] p = (p = [])"
| "includes_str (c # cs) p = (startsWith (c # cs) p \<or> includes_str cs p)"

definition trim :: "string \<Rightarrow> string" where
  \<comment> \<open>\<open>s.trim()\<close>\<close>
  "trim s = rev (dropWhile is_space (rev (dropWhile is_space s)))"

definition join :: "('a \<Rightarrow> string) \<Rightarrow> 'a list \<Rightarrow> string" where
  \<comment> \<open>\<open>xs.join("")\<close>, the first argument being the elements' \<open>toString\<close>\<close>
  "join toStr xs = concat (map toStr xs)"

function compress :: "string \<Rightarrow> string" where
  \<comment> \<open>\<open>text.replace(/\s+/g, (substring) => (substring[0]))\<close>: every match of \<open>\s+\<close> is a
      maximal run of whitespace, found from left to right, and is replaced by its first
      code unit\<close>
  "compress [] = []"
| "compress (c # cs) =
     (if is_space c then c # compress (dropWhile is_space cs) else c # compress cs)"
  by pat_completeness auto
termination
  by (relation "measure length") (auto simp: length_dropWhile_le less_Suc_eq_le)

fun indentFirstBreak :: "string \<Rightarrow> string" where
  \<comment> \<open>\<open>s.replace(/\n/, "\n  ")\<close>: the regular expression has no \<open>g\<close> flag, so only the
      first match is replaced\<close>
  "indentFirstBreak [] = []"
| "indentFirstBreak (c # cs) =
     (if c = CHR 0x0A then [CHR 0x0A, CHR '' '', CHR '' ''] @ cs else c # indentFirstBreak cs)"

definition escapeLoneSpecial :: "string \<Rightarrow> string" where
  \<comment> \<open>\<open>text.replace(/^[\\{}]$/g, (substring) => `\\${substring}`)\<close>: without the \<open>m\<close> flag
      \<open>^\<close> and \<open>$\<close> match at the two ends of the string only, so the only possible match is
      the whole string, when it is one code unit of the class\<close>
  "escapeLoneSpecial s =
     (case s of
        [c] \<Rightarrow> if c = CHR 0x5C \<or> c = CHR ''{'' \<or> c = CHR ''}'' then [CHR 0x5C, c] else s
      | _ \<Rightarrow> s)"

section \<open>Errors\<close>

datatype error =
    MultipleLineBreaks      \<comment> \<open>"Text may not contain multiple line breaks in sequence"\<close>
  | BracesWithoutCommand    \<comment> \<open>"Braces without command"\<close>
  | UnknownCommand string   \<comment> \<open>`Unknown command "${commandStr}"`\<close>
  | UnclosedCommand         \<comment> \<open>"Unclosed command"\<close>
  | TypeError               \<comment> \<open>the runtime's error on reading a property of \<open>undefined\<close>\<close>

section \<open>The command type registry\<close>

datatype Type =
    EMPHASIS | STRONG_EMPHASIS | PROPER_NAME | CODE | MESSAGE | MESSAGE_PLACEHOLDER
  | CURLY_BRACE_OPEN | CURLY_BRACE_CLOSED

fun ordinal :: "Type \<Rightarrow> nat" where
  "ordinal EMPHASIS = 0"
| "ordinal STRONG_EMPHASIS = 1"
| "ordinal PROPER_NAME = 2"
| "ordinal CODE = 3"
| "ordinal MESSAGE = 4"
| "ordinal MESSAGE_PLACEHOLDER = 5"
| "ordinal CURLY_BRACE_OPEN = 6"
| "ordinal CURLY_BRACE_CLOSED = 7"

fun name :: "Type \<Rightarrow> string" where
  "name EMPHASIS = ''EMPHASIS''"
| "name STRONG_EMPHASIS = ''STRONG_EMPHASIS''"
| "name PROPER_NAME = ''PROPER_NAME''"
| "name CODE = ''CODE''"
| "name MESSAGE = ''MESSAGE''"
| "name MESSAGE_PLACEHOLDER = ''MESSAGE_PLACEHOLDER''"
| "name CURLY_BRACE_OPEN = ''CURLY_BRACE_OPEN''"
| "name CURLY_BRACE_CLOSED = ''CURLY_BRACE_CLOSED''"

fun getCommands :: "Type \<Rightarrow> string list" where
  "getCommands EMPHASIS = [''e'']"
| "getCommands STRONG_EMPHASIS = [''s'']"
| "getCommands PROPER_NAME = [''p'']"
| "getCommands CODE = [''c'']"
| "getCommands MESSAGE = [''m'']"
| "getCommands MESSAGE_PLACEHOLDER = [''mp'']"
| "getCommands CURLY_BRACE_OPEN = [''cb'', ''cbo'']"
| "getCommands CURLY_BRACE_CLOSED = [''cbc'']"

definition values_list :: "Type list" where
  \<comment> \<open>\<open>Type._values\<close>, in the order in which the static fields are initialised\<close>
  "values_list =
     [EMPHASIS, STRONG_EMPHASIS, PROPER_NAME, CODE, MESSAGE, MESSAGE_PLACEHOLDER,
      CURLY_BRACE_OPEN, CURLY_BRACE_CLOSED]"

definition from_name :: "string \<Rightarrow> Type option" where
  \<comment> \<open>\<open>Type.from(name)\<close>\<close>
  "from_name n = find (\<lambda>v. name v = n) values_list"

definition fromCommand :: "string \<Rightarrow> Type option" where
  "fromCommand command = find (\<lambda>v. command \<in> set (getCommands v)) values_list"

section \<open>Inline elements\<close>

record TextSpan =
  "text" :: string

record CommandSpan =
  type :: Type
  textSpan :: TextSpan

datatype DescriptionInlineElement =
    IsTextSpan TextSpan
  | IsCommandSpan CommandSpan

definition new_TextSpan :: "string \<Rightarrow> error + TextSpan" where
  \<comment> \<open>the constructor of \<open>TextSpan\<close>\<close>
  "new_TextSpan s =
     (if includes_str s [CHR 0x0A, CHR 0x0A] then Inl MultipleLineBreaks
      else Inr \<lparr>text = compress s\<rparr>)"

definition TextSpan_toString :: "TextSpan \<Rightarrow> string" where
  "TextSpan_toString t = text t"

definition CommandSpan_toString :: "CommandSpan \<Rightarrow> string" where
  "CommandSpan_toString cs =
     (let str = ''{'' @ (case getCommands (type cs) of [] \<Rightarrow> ''undefined'' | c # _ \<Rightarrow> c);
          escapedText = escapeLoneSpecial (text (textSpan cs));
          str = (if escapedText \<noteq> [] then str @ '' '' @ escapedText else str)
      in str @ ''}'')"

fun inline_toString :: "DescriptionInlineElement \<Rightarrow> string" where
  "inline_toString (IsTextSpan t) = TextSpan_toString t"
| "inline_toString (IsCommandSpan cs) = CommandSpan_toString cs"

section \<open>Block elements and the document\<close>

datatype DescriptionBlockElement =
    Paragraph "DescriptionInlineElement list"
  | List "DescriptionInlineElement list list"

definition Paragraph_toString :: "DescriptionInlineElement list \<Rightarrow> string" where
  "Paragraph_toString elements = [CHR 0x0A] @ join inline_toString elements @ [CHR 0x0A]"

fun List_loop :: "string \<Rightarrow> DescriptionInlineElement list list \<Rightarrow> string" where
  \<comment> \<open>the \<open>for\<close> loop of \<open>List.toString\<close> over the items from index 1 on\<close>
  "List_loop str [] = str"
| "List_loop str (item # items) =
     List_loop (str @ [CHR 0x0A] @ ''* '' @ indentFirstBreak (join inline_toString item)) items"

definition List_toString :: "DescriptionInlineElement list list \<Rightarrow> string" where
  "List_toString items =
     (let str = (case items of
                   [] \<Rightarrow> []
                 | item0 # _ \<Rightarrow> ''* '' @ indentFirstBreak (join inline_toString item0));
          str = List_loop str (tl items)
      in [CHR 0x0A] @ str @ [CHR 0x0A])"

fun block_toString :: "DescriptionBlockElement \<Rightarrow> string" where
  "block_toString (Paragraph elements) = Paragraph_toString elements"
| "block_toString (List items) = List_toString items"

record Description =
  elements :: "DescriptionBlockElement list"

definition Description_toString :: "Description \<Rightarrow> string" where
  "Description_toString d = trim (join block_toString (elements d))"


section \<open>The inline parser\<close>

definition pushTextSpan ::
  "string \<Rightarrow> DescriptionInlineElement list \<Rightarrow> error + DescriptionInlineElement list" where
  \<comment> \<open>the closure \<open>pushTextSpan\<close>; it returns the new \<open>elements\<close>, and leaves the variable
      \<open>text\<close> empty in both of its branches\<close>
  "pushTextSpan txt elems =
     (if txt \<noteq> [] then
        (case new_TextSpan txt of
           Inl e \<Rightarrow> Inl e
         | Inr t \<Rightarrow> Inr (elems @ [IsTextSpan t]))
      else Inr elems)"

definition is_token_char :: "char \<Rightarrow> bool" where
  \<comment> \<open>the condition of the loop that reads the command:
      \<open>(str[i].match(/^\s$/) === null) && str[i] !== "}"\<close>\<close>
  "is_token_char c = (\<not> is_space c \<and> c \<noteq> CHR ''}'')"

function scan ::
  "Type option \<Rightarrow> string \<Rightarrow> DescriptionInlineElement list \<Rightarrow> string
     \<Rightarrow> error + DescriptionInlineElement list" where
  \<comment> \<open>The main loop of \<open>parseInlineElementes\<close>, with what follows it. The arguments are the
      variables \<open>commandType\<close>, \<open>text\<close> and \<open>elements\<close>, and the part of \<open>str\<close> from
      index \<open>i\<close> on. The index only moves forward, so \<open>i < l\<close> says that this part is not
      empty, and \<open>i + 1 < l\<close> that it has two code units at least.\<close>
  "scan commandType txt elems [] =
     (if commandType \<noteq> None then Inl UnclosedCommand else pushTextSpan txt elems)"
| "scan commandType txt elems (c # rest) =
     (if commandType = None \<and> c = CHR ''{'' then
        (case pushTextSpan txt elems of
           Inl e \<Rightarrow> Inl e
         | Inr elems' \<Rightarrow>
             (let commandStr = takeWhile is_token_char rest;
                  rest1 = dropWhile is_token_char rest
              in if commandStr = [] then Inl BracesWithoutCommand
                 else (let rest2 = dropWhile is_space rest1
                       in case fromCommand commandStr of
                            None \<Rightarrow> Inl (UnknownCommand commandStr)
                          | Some ty \<Rightarrow> scan (Some ty) [] elems' rest2)))
      else
        (case commandType of
           Some ty \<Rightarrow>
             if c = CHR ''}'' then
               (case new_TextSpan txt of
                  Inl e \<Rightarrow> Inl e
                | Inr t \<Rightarrow>
                    scan None [] (elems @ [IsCommandSpan \<lparr>type = ty, textSpan = t\<rparr>]) rest)
             else
               (case rest of
                  escChar # rest' \<Rightarrow>
                    if c = CHR 0x5C \<and>
                       (escChar = CHR 0x5C \<or> escChar = CHR ''{'' \<or> escChar = CHR ''}'')
                    then scan commandType (txt @ [escChar]) elems rest'
                    else scan commandType (txt @ [c]) elems rest
                | [] \<Rightarrow> scan commandType (txt @ [c]) elems rest)
         | None \<Rightarrow> scan commandType (txt @ [c]) elems rest))"
  by pat_completeness auto
termination
  by (relation "measure (\<lambda>(commandType, txt, elems, s). length s)")
     (auto simp: less_Suc_eq_le
           intro: order_trans [OF length_dropWhile_le length_dropWhile_le])

definition parseInlineElementes :: "string \<Rightarrow> error + DescriptionInlineElement list" where
  "parseInlineElementes str = scan None [] [] str"

section \<open>The span optimizer\<close>

definition optimize_step ::
  "DescriptionInlineElement list \<Rightarrow> DescriptionInlineElement
     \<Rightarrow> error + DescriptionInlineElement list" where
  \<comment> \<open>the callback of \<open>elements.forEach\<close> in \<open>optimizeElements\<close>, from \<open>optimizedElements\<close>
      before the call to \<open>optimizedElements\<close> after it; \<open>lastOptimizedElement\<close> is
      \<open>undefined\<close> when \<open>optimizedElements\<close> is empty\<close>
  "optimize_step optimizedElements element =
     (if optimizedElements = [] then Inr (optimizedElements @ [element])
      else
        (let lastOptimizedElement = last optimizedElements
         in case element of
              IsTextSpan t \<Rightarrow>
                if text t \<noteq> [] then
                  (case lastOptimizedElement of
                     IsTextSpan l \<Rightarrow>
                       (case new_TextSpan (text l @ text t) of
                          Inl e \<Rightarrow> Inl e
                        | Inr merged \<Rightarrow>
                            Inr (optimizedElements
                                   [length optimizedElements - 1 := IsTextSpan merged]))
                   | IsCommandSpan _ \<Rightarrow> Inr (optimizedElements @ [element]))
                else Inr optimizedElements
            | IsCommandSpan _ \<Rightarrow> Inr (optimizedElements @ [element])))"

fun optimize_loop ::
  "DescriptionInlineElement list \<Rightarrow> DescriptionInlineElement list
     \<Rightarrow> error + DescriptionInlineElement list" where
  "optimize_loop optimizedElements [] = Inr optimizedElements"
| "optimize_loop optimizedElements (element # elems) =
     (case optimize_step optimizedElements element of
        Inl e \<Rightarrow> Inl e
      | Inr optimizedElements' \<Rightarrow> optimize_loop optimizedElements' elems)"

definition optimizeElements ::
  "DescriptionInlineElement list \<Rightarrow> error + DescriptionInlineElement list" where
  "optimizeElements elems = optimize_loop [] elems"

section \<open>The block parser\<close>

function split_from :: "string \<Rightarrow> string \<Rightarrow> string \<Rightarrow> string list" where
  \<comment> \<open>\<open>s.split(sep)\<close> for a separator that is not empty: \<open>cur\<close> is the piece read since the
      last separator, the third argument what is left of \<open>s\<close>\<close>
  "split_from sep cur [] = [cur]"
| "split_from sep cur (c # cs) =
     (if sep \<noteq> [] \<and> startsWith (c # cs) sep
      then cur # split_from sep [] (drop (length sep) (c # cs))
      else split_from sep (cur @ [c]) cs)"
  by pat_completeness auto
termination
  by (relation "measure (\<lambda>(sep, cur, s). length s)") auto

definition split :: "string \<Rightarrow> string \<Rightarrow> string list" where
  \<comment> \<open>\<open>s.split(sep)\<close>; an empty separator splits between all code units\<close>
  "split s sep = (if sep = [] then map (\<lambda>c. [c]) s else split_from sep [] s)"

function collapseBreaks :: "string \<Rightarrow> string" where
  \<comment> \<open>\<open>str.replace(/\n{3,}/g, "\n\n")\<close>: a match is a maximal run of three or more line
      breaks\<close>
  "collapseBreaks [] = []"
| "collapseBreaks (c # cs) =
     (if c = CHR 0x0A then
        (let run = takeWhile (\<lambda>x. x = CHR 0x0A) cs
         in (if 3 \<le> length (c # run) then [CHR 0x0A, CHR 0x0A] else c # run)
            @ collapseBreaks (dropWhile (\<lambda>x. x = CHR 0x0A) cs))
      else c # collapseBreaks cs)"
  by pat_completeness auto
termination
  by (relation "measure length") (auto simp: length_dropWhile_le less_Suc_eq_le)

fun map_err :: "('a \<Rightarrow> error + 'b) \<Rightarrow> 'a list \<Rightarrow> error + 'b list" where
  \<comment> \<open>\<open>xs.map(f)\<close> for an \<open>f\<close> that may throw: the first exception ends the call\<close>
  "map_err f [] = Inr []"
| "map_err f (x # xs) =
     (case f x of
        Inl e \<Rightarrow> Inl e
      | Inr y \<Rightarrow> (case map_err f xs of Inl e \<Rightarrow> Inl e | Inr ys \<Rightarrow> Inr (y # ys)))"

fun forEach_err :: "('s \<Rightarrow> 'a \<Rightarrow> error + 's) \<Rightarrow> 's \<Rightarrow> 'a list \<Rightarrow> error + 's" where
  \<comment> \<open>\<open>xs.forEach(f)\<close> for an \<open>f\<close> that updates the variables \<open>'s\<close> it captures and may
      throw\<close>
  "forEach_err f st [] = Inr st"
| "forEach_err f st (x # xs) =
     (case f st x of Inl e \<Rightarrow> Inl e | Inr st' \<Rightarrow> forEach_err f st' xs)"

record block_state =
  blocks :: "DescriptionBlockElement list"
  paragraphElements :: "DescriptionInlineElement list option"
  listItems :: "DescriptionInlineElement list list option"

text \<open>
  \<^typ>\<open>block_state\<close> holds the variables that the closures of \<open>parseDescription\<close> share:
  \<open>blocks\<close>, and the two accumulators of the current block, where \<open>None\<close> is \<open>null\<close>.
\<close>

definition pushParagraphElements :: "block_state \<Rightarrow> error + block_state" where
  "pushParagraphElements st =
     (case paragraphElements st of
        Some pe \<Rightarrow>
          (case optimizeElements pe of
             Inl e \<Rightarrow> Inl e
           | Inr optimized \<Rightarrow>
               Inr (st\<lparr>blocks := blocks st @ [Paragraph optimized], paragraphElements := None\<rparr>))
      | None \<Rightarrow> Inr st)"

definition pushListItems :: "block_state \<Rightarrow> error + block_state" where
  "pushListItems st =
     (case listItems st of
        Some items \<Rightarrow>
          (case map_err optimizeElements items of
             Inl e \<Rightarrow> Inl e
           | Inr optimized \<Rightarrow>
               Inr (st\<lparr>blocks := blocks st @ [List optimized], listItems := None\<rparr>))
      | None \<Rightarrow> Inr st)"

definition push_to_last ::
  "DescriptionInlineElement list list \<Rightarrow> DescriptionInlineElement list
     \<Rightarrow> error + DescriptionInlineElement list list" where
  \<comment> \<open>\<open>listItems[listItems.length - 1].push(...es)\<close>; on an empty \<open>listItems\<close> the item read
      is \<open>undefined\<close>\<close>
  "push_to_last items es =
     (if items = [] then Inl TypeError
      else Inr (items[length items - 1 := last items @ es]))"

definition line_item :: "block_state \<Rightarrow> string \<Rightarrow> error + block_state" where
  \<comment> \<open>the branch of a line that starts with \<open>"* "\<close>\<close>
  "line_item st line =
     (case pushParagraphElements st of
        Inl e \<Rightarrow> Inl e
      | Inr st \<Rightarrow>
          (let items = (case listItems st of None \<Rightarrow> [] | Some items \<Rightarrow> items);
               items = items @ [[]]
           in case parseInlineElementes (drop 2 line) of
                Inl e \<Rightarrow> Inl e
              | Inr es \<Rightarrow>
                  (case push_to_last items es of
                     Inl e \<Rightarrow> Inl e
                   | Inr items \<Rightarrow> Inr (st\<lparr>listItems := Some items\<rparr>))))"

definition line_continuation ::
  "block_state \<Rightarrow> DescriptionInlineElement list list \<Rightarrow> string \<Rightarrow> error + block_state" where
  \<comment> \<open>the branch of a line that starts with two spaces while \<open>listItems\<close>, the second
      argument, is not \<open>null\<close>; reading \<open>.length\<close> of the last item of an empty \<open>listItems\<close>
      is a \<open>TypeError\<close>\<close>
  "line_continuation st items line =
     (if items = [] then Inl TypeError
      else
        (case (if 0 < length (last items) \<and> \<not> startsWith line ''   ''
               then (case new_TextSpan [CHR 0x0A] of
                       Inl e \<Rightarrow> Inl e
                     | Inr t \<Rightarrow> push_to_last items [IsTextSpan t])
               else Inr items) of
           Inl e \<Rightarrow> Inl e
         | Inr items \<Rightarrow>
             (case parseInlineElementes (drop 2 line) of
                Inl e \<Rightarrow> Inl e
              | Inr es \<Rightarrow>
                  (case push_to_last items es of
                     Inl e \<Rightarrow> Inl e
                   | Inr items \<Rightarrow> Inr (st\<lparr>listItems := Some items\<rparr>)))))"

definition line_paragraph :: "block_state \<Rightarrow> string \<Rightarrow> error + block_state" where
  \<comment> \<open>the last branch\<close>
  "line_paragraph st line =
     (case pushListItems st of
        Inl e \<Rightarrow> Inl e
      | Inr st \<Rightarrow>
          (let pe = (case paragraphElements st of None \<Rightarrow> [] | Some pe \<Rightarrow> pe)
           in case (if 0 < length pe \<and> \<not> startsWith line '' ''
                    then (case new_TextSpan [CHR 0x0A] of
                            Inl e \<Rightarrow> Inl e
                          | Inr t \<Rightarrow> Inr (pe @ [IsTextSpan t]))
                    else Inr pe) of
                Inl e \<Rightarrow> Inl e
              | Inr pe \<Rightarrow>
                  (case parseInlineElementes line of
                     Inl e \<Rightarrow> Inl e
                   | Inr es \<Rightarrow> Inr (st\<lparr>paragraphElements := Some (pe @ es)\<rparr>))))"

definition parse_line :: "block_state \<Rightarrow> string \<Rightarrow> error + block_state" where
  \<comment> \<open>the callback of \<open>block.split("\n").forEach\<close>\<close>
  "parse_line st line =
     (if startsWith line ''* '' then line_item st line
      else
        (case listItems st of
           Some items \<Rightarrow>
             if startsWith line ''  '' then line_continuation st items line
             else line_paragraph st line
         | None \<Rightarrow> line_paragraph st line))"

definition parse_block ::
  "DescriptionBlockElement list \<Rightarrow> string \<Rightarrow> error + DescriptionBlockElement list" where
  \<comment> \<open>the callback of \<open>str.split("\n\n").forEach\<close>, from \<open>blocks\<close> before the call to
      \<open>blocks\<close> after it\<close>
  "parse_block bs block =
     (case forEach_err parse_line
             \<lparr>blocks = bs, paragraphElements = None, listItems = None\<rparr>
             (split block [CHR 0x0A]) of
        Inl e \<Rightarrow> Inl e
      | Inr st \<Rightarrow>
          (case pushParagraphElements st of
             Inl e \<Rightarrow> Inl e
           | Inr st \<Rightarrow>
               (case pushListItems st of
                  Inl e \<Rightarrow> Inl e
                | Inr st \<Rightarrow> Inr (blocks st))))"

definition parseDescription :: "string \<Rightarrow> error + Description" where
  "parseDescription str =
     (let str = collapseBreaks (trim str)
      in case forEach_err parse_block [] (split str [CHR 0x0A, CHR 0x0A]) of
           Inl e \<Rightarrow> Inl e
         | Inr bs \<Rightarrow> Inr \<lparr>elements = bs\<rparr>)"

section \<open>Reference definitions for the properties\<close>

text \<open>
  The definitions of this section are not translated from the program. They say, in the
  words of its documentation, what the program is expected to compute, and the theorems
  below compare them with the program.
\<close>

subsection \<open>Maximal runs of whitespace\<close>

fun ws_runs :: "string \<Rightarrow> string list" where
  \<comment> \<open>the decomposition of a string into its maximal runs of whitespace and of other
      code units, from left to right\<close>
  "ws_runs [] = []"
| "ws_runs (c # cs) =
     (case ws_runs cs of
        (d # r) # rs \<Rightarrow>
          if is_space c = is_space d then (c # d # r) # rs else [c] # (d # r) # rs
      | _ \<Rightarrow> [[c]])"

definition collapse_run :: "string \<Rightarrow> string" where
  \<comment> \<open>a run of whitespace is replaced by its first code unit, another run is kept\<close>
  "collapse_run r = (case r of c # _ \<Rightarrow> if is_space c then [c] else r | [] \<Rightarrow> [])"

definition collapse_runs :: "string \<Rightarrow> string" where
  "collapse_runs s = concat (map collapse_run (ws_runs s))"

subsection \<open>Merging the runs of text spans\<close>

fun is_text :: "DescriptionInlineElement \<Rightarrow> bool" where
  "is_text (IsTextSpan t) = True"
| "is_text (IsCommandSpan cs) = False"

fun text_of :: "DescriptionInlineElement \<Rightarrow> string" where
  "text_of (IsTextSpan t) = text t"
| "text_of (IsCommandSpan cs) = []"

function merge_runs :: "DescriptionInlineElement list \<Rightarrow> DescriptionInlineElement list" where
  \<comment> \<open>Every maximal run of adjacent text spans becomes one text span, whose text is the
      concatenation of the texts of the run with its runs of whitespace collapsed; a run
      whose texts are all empty is dropped; the command spans stay where they are.\<close>
  "merge_runs [] = []"
| "merge_runs (IsCommandSpan cs # es) = IsCommandSpan cs # merge_runs es"
| "merge_runs (IsTextSpan t # es) =
     (let joined = text t @ concat (map text_of (takeWhile is_text es))
      in (if joined = [] then [] else [IsTextSpan \<lparr>text = collapse_runs joined\<rparr>])
         @ merge_runs (dropWhile is_text es))"
  by pat_completeness auto
termination
  by (relation "measure length") (auto simp: length_dropWhile_le less_Suc_eq_le)

definition constructed :: "DescriptionInlineElement \<Rightarrow> bool" where
  \<comment> \<open>the text span was built by the constructor of \<open>TextSpan\<close>: building a span from
      its text gives the span again\<close>
  "constructed e =
     (case e of IsTextSpan t \<Rightarrow> new_TextSpan (text t) = Inr t | IsCommandSpan cs \<Rightarrow> True)"

subsection \<open>Line breaks that meet when a run is merged\<close>

definition ends_with_break :: "string \<Rightarrow> bool" where
  "ends_with_break s = (s \<noteq> [] \<and> last s = CHR 0x0A)"

definition starts_with_break :: "string \<Rightarrow> bool" where
  "starts_with_break s = (case s of c # _ \<Rightarrow> c = CHR 0x0A | [] \<Rightarrow> False)"

definition breaks_meet_from :: "string \<Rightarrow> string list \<Rightarrow> bool" where
  \<comment> \<open>In a run of texts \<open>us\<close> that follows the text \<open>X\<close>, some text begins with a line
      break while the texts before it, concatenated and with their runs of whitespace
      collapsed, end with one.\<close>
  "breaks_meet_from X us =
     list_ex (\<lambda>k. ends_with_break (collapse_runs (X @ concat (take k us)))
                  \<and> starts_with_break (us ! k))
       [0..<length us]"

function breaks_meet :: "DescriptionInlineElement list \<Rightarrow> bool" where
  \<comment> \<open>two line breaks meet in one of the maximal runs of adjacent text spans\<close>
  "breaks_meet [] = False"
| "breaks_meet (IsCommandSpan cs # es) = breaks_meet es"
| "breaks_meet (IsTextSpan t # es) =
     (breaks_meet_from [] (text t # map text_of (takeWhile is_text es))
      \<or> breaks_meet (dropWhile is_text es))"
  by pat_completeness auto
termination
  by (relation "measure length") (auto simp: length_dropWhile_le less_Suc_eq_le)

definition leading_run_empty :: "DescriptionInlineElement list \<Rightarrow> bool" where
  \<comment> \<open>the sequence begins with text spans, and the texts of this first run are all empty\<close>
  "leading_run_empty es =
     (case es of
        IsTextSpan t # rest \<Rightarrow> text t @ concat (map text_of (takeWhile is_text rest)) = []
      | _ \<Rightarrow> False)"

subsection \<open>Documents of plain text in canonical form\<close>

fun join_with :: "string \<Rightarrow> string list \<Rightarrow> string" where
  \<comment> \<open>the pieces, with the separator between them\<close>
  "join_with sep [] = []"
| "join_with sep [x] = x"
| "join_with sep (x # y # ys) = x @ sep @ join_with sep (y # ys)"

definition text_line :: "string \<Rightarrow> bool" where
  \<comment> \<open>a line of plain text as the serializer writes it: not empty, without an opening
      brace or a line break, without whitespace at its ends, and without two whitespace
      code units in sequence\<close>
  "text_line w =
     (w \<noteq> [] \<and> CHR ''{'' \<notin> set w \<and> CHR 0x0A \<notin> set w
      \<and> \<not> is_space (hd w) \<and> \<not> is_space (last w) \<and> collapse_runs w = w)"

datatype plain_block =
    PlainParagraph "string list"
      \<comment> \<open>the lines of a paragraph\<close>
  | PlainList "(string \<times> string option) list"
      \<comment> \<open>the items of a list: the text after the bullet, and the text of the continuation
          line when the item has one\<close>

fun item_ok :: "string \<times> string option \<Rightarrow> bool" where
  "item_ok (a, None) = text_line a"
| "item_ok (a, Some b) = (text_line a \<and> text_line b)"

fun block_ok :: "plain_block \<Rightarrow> bool" where
  "block_ok (PlainParagraph ls) =
     (ls \<noteq> [] \<and> list_all (\<lambda>l. text_line l \<and> \<not> startsWith l ''* '') ls)"
| "block_ok (PlainList its) = (its \<noteq> [] \<and> list_all item_ok its)"

definition canonical_source :: "plain_block list \<Rightarrow> bool" where
  "canonical_source bs = (bs \<noteq> [] \<and> list_all block_ok bs)"

fun item_lines :: "string \<times> string option \<Rightarrow> string list" where
  "item_lines (a, None) = [''* '' @ a]"
| "item_lines (a, Some b) = [''* '' @ a, ''  '' @ b]"

fun block_lines :: "plain_block \<Rightarrow> string list" where
  "block_lines (PlainParagraph ls) = ls"
| "block_lines (PlainList its) = concat (map item_lines its)"

definition block_text :: "plain_block \<Rightarrow> string" where
  "block_text b = join_with [CHR 0x0A] (block_lines b)"

definition document_text :: "plain_block list \<Rightarrow> string" where
  \<comment> \<open>the text of the document: the blocks, with an empty line between them\<close>
  "document_text bs = join_with [CHR 0x0A, CHR 0x0A] (map block_text bs)"

fun item_tree :: "string \<times> string option \<Rightarrow> DescriptionInlineElement list" where
  "item_tree (a, None) = [IsTextSpan \<lparr>text = a\<rparr>]"
| "item_tree (a, Some b) = [IsTextSpan \<lparr>text = a @ [CHR 0x0A] @ b\<rparr>]"

fun block_tree :: "plain_block \<Rightarrow> DescriptionBlockElement" where
  "block_tree (PlainParagraph ls) = Paragraph [IsTextSpan \<lparr>text = join_with [CHR 0x0A] ls\<rparr>]"
| "block_tree (PlainList its) = List (map item_tree its)"

definition document_tree :: "plain_block list \<Rightarrow> Description" where
  "document_tree bs = \<lparr>elements = map block_tree bs\<rparr>"

fun item_elements :: "string \<times> string option \<Rightarrow> DescriptionInlineElement list" where
  \<comment> \<open>the elements that the parser collects for an item, before they are merged\<close>
  "item_elements (a, None) = [IsTextSpan \<lparr>text = a\<rparr>]"
| "item_elements (a, Some b) =
     [IsTextSpan \<lparr>text = a\<rparr>, IsTextSpan \<lparr>text = [CHR 0x0A]\<rparr>, IsTextSpan \<lparr>text = b\<rparr>]"

section \<open>Lemmas on lists\<close>

lemma takeWhile_append_stop:
  "\<exists>x \<in> set xs. \<not> P x \<Longrightarrow> takeWhile P (xs @ ys) = takeWhile P xs"
  by (induction xs) auto

lemma dropWhile_append_stop:
  "\<exists>x \<in> set xs. \<not> P x \<Longrightarrow> dropWhile P (xs @ ys) = dropWhile P xs @ ys"
  by (induction xs) auto

lemma dropWhile_eq_Nil_all: "dropWhile P xs = [] \<longleftrightarrow> (\<forall>x \<in> set xs. P x)"
  by (induction xs) auto


section \<open>Properties of the text span constructor\<close>

subsection \<open>The decomposition into runs\<close>

lemma ws_runs_Cons_shape: "\<exists>r rs. ws_runs (c # cs) = (c # r) # rs"
proof (cases "ws_runs cs")
  case Nil
  then show ?thesis by simp
next
  case (Cons r0 rs)
  note outer = Cons
  show ?thesis
  proof (cases r0)
    case Nil
    with outer show ?thesis by simp
  next
    case (Cons d r')
    with outer show ?thesis by simp
  qed
qed

lemma ws_runs_single: "ws_runs [c] = [[c]]"
  by simp

lemma ws_runs_step:
  assumes "ws_runs (d # ds) = (d # r) # rs"
  shows "ws_runs (c # d # ds) =
           (if is_space c = is_space d then (c # d # r) # rs else [c] # (d # r) # rs)"
  using assms by (simp del: ws_runs.simps add: ws_runs.simps(2) [of c "d # ds"])

declare ws_runs.simps(2) [simp del]

lemma concat_ws_runs: "concat (ws_runs s) = s"
proof (induction s rule: induct_list012)
  case 1 show ?case by simp
next
  case (2 c) show ?case by (simp add: ws_runs_single)
next
  case (3 c d ds)
  obtain r rs where r: "ws_runs (d # ds) = (d # r) # rs" using ws_runs_Cons_shape by blast
  from 3(2) show ?case by (simp add: r ws_runs_step [OF r])
qed

lemma ws_runs_nonempty: "r \<in> set (ws_runs s) \<Longrightarrow> r \<noteq> []"
proof (induction s arbitrary: r rule: induct_list012)
  case 1 then show ?case by simp
next
  case (2 c) then show ?case by (simp add: ws_runs_single)
next
  case (3 c d ds)
  obtain r' rs where r: "ws_runs (d # ds) = (d # r') # rs" using ws_runs_Cons_shape by blast
  from 3(2)[of r] 3(3) show ?case by (auto simp: r ws_runs_step [OF r] split: if_splits)
qed

lemma ws_runs_uniform:
  "r \<in> set (ws_runs s) \<Longrightarrow> (\<forall>x \<in> set r. is_space x) \<or> (\<forall>x \<in> set r. \<not> is_space x)"
proof (induction s arbitrary: r rule: induct_list012)
  case 1 then show ?case by simp
next
  case (2 c) then show ?case by (simp add: ws_runs_single)
next
  case (3 c d ds)
  obtain r' rs where r: "ws_runs (d # ds) = (d # r') # rs" using ws_runs_Cons_shape by blast
  have "d # r' \<in> set (ws_runs (d # ds))" by (simp add: r)
  from 3(2) [OF this]
  have head: "(\<forall>x \<in> set (d # r'). is_space x) \<or> (\<forall>x \<in> set (d # r'). \<not> is_space x)" .
  have tail: "(\<forall>x \<in> set q. is_space x) \<or> (\<forall>x \<in> set q. \<not> is_space x)" if "q \<in> set rs" for q
  proof -
    from that have "q \<in> set (ws_runs (d # ds))" by (simp add: r)
    from 3(2) [OF this] show ?thesis .
  qed
  show ?case
  proof (cases "is_space c = is_space d")
    case True
    then have eq: "ws_runs (c # d # ds) = (c # d # r') # rs" by (simp add: ws_runs_step [OF r])
    from 3(3) have "r = c # d # r' \<or> r \<in> set rs" unfolding eq by simp
    then show ?thesis
    proof
      assume "r = c # d # r'"
      then show ?thesis using True head by auto
    next
      assume "r \<in> set rs" then show ?thesis by (rule tail)
    qed
  next
    case False
    then have eq: "ws_runs (c # d # ds) = [c] # (d # r') # rs" by (simp add: ws_runs_step [OF r])
    from 3(3) have "r = [c] \<or> r = d # r' \<or> r \<in> set rs" unfolding eq by simp
    then show ?thesis
    proof (elim disjE)
      assume "r = [c]" then show ?thesis by simp
    next
      assume "r = d # r'" then show ?thesis using head by simp
    next
      assume "r \<in> set rs" then show ?thesis by (rule tail)
    qed
  qed
qed

lemma ws_runs_maximal:
  "Suc i < length (ws_runs s) \<Longrightarrow>
     is_space (hd (ws_runs s ! i)) \<noteq> is_space (hd (ws_runs s ! Suc i))"
proof (induction s arbitrary: i rule: induct_list012)
  case 1 then show ?case by simp
next
  case (2 c) then show ?case by (simp add: ws_runs_single)
next
  case (3 c d ds)
  obtain r' rs where r: "ws_runs (d # ds) = (d # r') # rs" using ws_runs_Cons_shape by blast
  show ?case
  proof (cases "is_space c = is_space d")
    case True
    then have eq: "ws_runs (c # d # ds) = (c # d # r') # rs" by (simp add: ws_runs_step [OF r])
    from 3(3) have len: "Suc i < length (ws_runs (d # ds))" unfolding eq r by simp
    from 3(2) [OF len] show ?thesis unfolding eq r using True by (cases i) simp_all
  next
    case False
    then have eq: "ws_runs (c # d # ds) = [c] # (d # r') # rs" by (simp add: ws_runs_step [OF r])
    show ?thesis
    proof (cases i)
      case 0 then show ?thesis unfolding eq using False by simp
    next
      case (Suc j)
      with 3(3) have len: "Suc j < length (ws_runs (d # ds))" unfolding eq r by simp
      from 3(2) [OF len] show ?thesis unfolding eq r Suc by simp
    qed
  qed
qed

text \<open>
  So \<^const>\<open>ws_runs\<close> cuts a string into pieces that are not empty
  (\<open>ws_runs_nonempty\<close>), that give the string back (\<open>concat_ws_runs\<close>), that are each
  made of whitespace only or of other code units only (\<open>ws_runs_uniform\<close>), and of which
  two neighbours are never of the same kind (\<open>ws_runs_maximal\<close>): the pieces are the
  maximal runs.
\<close>

lemma compress_eq_collapse_runs: "compress s = collapse_runs s"
proof (induction s rule: length_induct)
  case (1 s)
  show ?case
  proof (cases s)
    case Nil
    then show ?thesis by (simp add: collapse_runs_def)
  next
    case (Cons c cs)
    note s = Cons
    have IHcs: "compress cs = collapse_runs cs" using 1 s by simp
    show ?thesis
    proof (cases cs)
      case Nil
      then show ?thesis using s by (simp add: collapse_runs_def collapse_run_def ws_runs_single)
    next
      case (Cons d ds)
      obtain r rs where r: "ws_runs (d # ds) = (d # r) # rs" using ws_runs_Cons_shape by blast
      have step: "ws_runs s =
           (if is_space c = is_space d then (c # d # r) # rs else [c] # (d # r) # rs)"
        unfolding s Cons by (rule ws_runs_step [OF r])
      have cs_eq: "collapse_runs cs = collapse_run (d # r) @ concat (map collapse_run rs)"
        unfolding Cons collapse_runs_def r by simp
      show ?thesis
      proof (cases "is_space c")
        case True
        note c = True
        show ?thesis
        proof (cases "is_space d")
          case True
          have a: "compress s = c # compress (dropWhile is_space ds)"
            unfolding s Cons using c True by simp
          have b: "compress cs = d # compress (dropWhile is_space ds)"
            unfolding Cons using True by simp
          have "compress (dropWhile is_space ds) = concat (map collapse_run rs)"
            using b IHcs cs_eq True by (simp add: collapse_run_def)
          then show ?thesis
            unfolding a collapse_runs_def step using c True by (simp add: collapse_run_def)
        next
          case False
          have a: "compress s = c # compress cs"
            unfolding s Cons using c False by simp
          show ?thesis
            unfolding a IHcs cs_eq unfolding collapse_runs_def step
            using c False by (simp add: collapse_run_def)
        qed
      next
        case False
        have a: "compress s = c # compress cs"
          unfolding s using False by simp
        show ?thesis
          unfolding a IHcs cs_eq unfolding collapse_runs_def step
          using False by (simp add: collapse_run_def)
      qed
    qed
  qed
qed


text \<open>
  Claim C4, as amended. For every string that the constructor of \<open>TextSpan\<close> accepts, the
  stored text is the string with every maximal run of whitespace replaced by the first code
  unit of the run. (The first example of the claim does not follow this rule, see
  \<open>TextSpan_tab_example_counterexample\<close>: the tab after \<open>b\<close> is a run of its own and
  stays a tab.)
\<close>

theorem TextSpan_collapses_runs:
  "new_TextSpan s = Inr t \<Longrightarrow> text t = collapse_runs s"
  by (auto simp: new_TextSpan_def compress_eq_collapse_runs split: if_splits)

theorem TextSpan_collapses_runs_witness:
  "new_TextSpan (''a   b'' @ [CHR 0x09] @ ''c'') = Inr \<lparr>text = ''a b'' @ [CHR 0x09] @ ''c''\<rparr>
   \<and> collapse_runs (''a   b'' @ [CHR 0x09] @ ''c'') = ''a b'' @ [CHR 0x09] @ ''c''
   \<and> new_TextSpan (''a'' @ [CHR 0x09, CHR 0x09] @ ''b'') = Inr \<lparr>text = ''a'' @ [CHR 0x09] @ ''b''\<rparr>
   \<and> collapse_runs (''a'' @ [CHR 0x09, CHR 0x09] @ ''b'') = ''a'' @ [CHR 0x09] @ ''b''"
proof -
  have h1: "new_TextSpan (''a   b'' @ [CHR 0x09] @ ''c'')
              = Inr \<lparr>text = ''a b'' @ [CHR 0x09] @ ''c''\<rparr>"
    by code_simp
  have h2: "new_TextSpan (''a'' @ [CHR 0x09, CHR 0x09] @ ''b'')
              = Inr \<lparr>text = ''a'' @ [CHR 0x09] @ ''b''\<rparr>"
    by code_simp
  show ?thesis
    using h1 h2 TextSpan_collapses_runs [OF h1] TextSpan_collapses_runs [OF h2] by simp
qed

text \<open>
  The first example of claim C4 as it is stated: the text built from \<open>a\<close>, three spaces,
  \<open>b\<close>, a tab and \<open>c\<close> keeps the tab, and is not \<open>"a b c"\<close> (nor is it when the
  code units after \<open>b\<close> are a backslash and \<open>t\<close>).
\<close>

theorem TextSpan_tab_example_counterexample:
  "new_TextSpan (''a   b'' @ [CHR 0x09] @ ''c'') = Inr \<lparr>text = ''a b'' @ [CHR 0x09] @ ''c''\<rparr>
   \<and> new_TextSpan (''a   b'' @ [CHR 0x09] @ ''c'') \<noteq> Inr \<lparr>text = ''a b c''\<rparr>
   \<and> new_TextSpan (''a   b'' @ [CHR 0x5C] @ ''tc'') \<noteq> Inr \<lparr>text = ''a b c''\<rparr>"
  by code_simp

subsection \<open>The check for two line breaks in sequence\<close>

lemma startsWith_two_breaks:
  "startsWith (c # cs) [CHR 0x0A, CHR 0x0A] \<longleftrightarrow> c = CHR 0x0A \<and> (\<exists>ds. cs = CHR 0x0A # ds)"
  by (cases cs) (auto simp: startsWith_def)

lemma includes_two_breaks:
  "includes_str s [CHR 0x0A, CHR 0x0A] \<longleftrightarrow>
     (\<exists>i. Suc i < length s \<and> s ! i = CHR 0x0A \<and> s ! Suc i = CHR 0x0A)"
proof (induction s)
  case Nil
  show ?case by simp
next
  case (Cons c cs)
  let ?Q = "\<lambda>xs i. Suc i < length xs \<and> xs ! i = CHR 0x0A \<and> xs ! Suc i = CHR 0x0A"
  have "(\<exists>i. ?Q (c # cs) i) \<longleftrightarrow> ?Q (c # cs) 0 \<or> (\<exists>j. ?Q (c # cs) (Suc j))"
    by (metis not0_implies_Suc)
  also have "?Q (c # cs) 0 \<longleftrightarrow> startsWith (c # cs) [CHR 0x0A, CHR 0x0A]"
    unfolding startsWith_two_breaks by (cases cs) auto
  also have "(\<exists>j. ?Q (c # cs) (Suc j)) \<longleftrightarrow> (\<exists>j. ?Q cs j)"
    by simp
  finally show ?case using Cons.IH by simp
qed

text \<open>
  Claim C5. The constructor of \<open>TextSpan\<close> raises "multiple line breaks in text" if and only
  if its argument has two line breaks one after the other; it raises nothing else; and
  \<open>"line1\n\nline2"\<close> is refused. The check is part of the constructor, so it is made for
  whoever builds a span: the last conjunct is a span that the parser builds, when it merges
  the line break of one continuation line of a list item with that of the next.
\<close>

theorem TextSpan_rejects_double_break:
  "(new_TextSpan s = Inl MultipleLineBreaks \<longleftrightarrow>
      (\<exists>i. Suc i < length s \<and> s ! i = CHR 0x0A \<and> s ! Suc i = CHR 0x0A))
   \<and> (\<forall>e. new_TextSpan s = Inl e \<longrightarrow> e = MultipleLineBreaks)
   \<and> new_TextSpan ''line1\<newline>\<newline>line2'' = Inl MultipleLineBreaks
   \<and> parseDescription ''* a\<newline>  \<newline>  b'' = Inl MultipleLineBreaks"
proof -
  have "new_TextSpan ''line1\<newline>\<newline>line2'' = Inl MultipleLineBreaks"
    by (simp add: new_TextSpan_def startsWith_def)
  moreover have "parseDescription ''* a\<newline>  \<newline>  b'' = Inl MultipleLineBreaks"
    by code_simp
  ultimately show ?thesis
    unfolding includes_two_breaks [symmetric] by (auto simp: new_TextSpan_def)
qed

theorem TextSpan_rejects_double_break_witness:
  "new_TextSpan ''\<newline>\<newline>'' = Inl MultipleLineBreaks
   \<and> Suc 0 < length ''\<newline>\<newline>''
   \<and> new_TextSpan ''\<newline> \<newline>'' = Inr \<lparr>text = ''\<newline>''\<rparr>"
proof -
  have "\<exists>i. Suc i < length ''\<newline>\<newline>'' \<and> ''\<newline>\<newline>'' ! i = CHR 0x0A
            \<and> ''\<newline>\<newline>'' ! Suc i = CHR 0x0A"
    by (rule exI [of _ 0]) simp
  then have "new_TextSpan ''\<newline>\<newline>'' = Inl MultipleLineBreaks"
    using TextSpan_rejects_double_break [of "''\<newline>\<newline>''"] by blast
  moreover have "new_TextSpan ''\<newline> \<newline>'' = Inr \<lparr>text = ''\<newline>''\<rparr>"
    by code_simp
  ultimately show ?thesis by simp
qed

section \<open>Properties of the serializer\<close>

text \<open>
  Claim C1. A command span is written as \<open>{\<close>, the first command of its type, then, only
  if the text is not empty, a space and the text, then \<open>}\<close>. The text gets a backslash in
  front only when it is, as a whole, one of the three strings made of one backslash, of one
  \<open>{\<close> or of one \<open>}\<close>; in a longer text these code units are written as they are. The two
  last conjuncts are the examples of the claim.
\<close>

theorem CommandSpan_toString_format:
  "(\<exists>canonical aliases.
      getCommands (type cs) = canonical # aliases \<and>
      CommandSpan_toString cs =
        ''{'' @ canonical
        @ (if text (textSpan cs) = [] then []
           else '' ''
                @ (if text (textSpan cs) \<in> {[CHR 0x5C], ''{'', ''}''} then [CHR 0x5C] else [])
                @ text (textSpan cs))
        @ ''}'')
   \<and> CommandSpan_toString \<lparr>type = CODE, textSpan = \<lparr>text = [CHR 0x5C]\<rparr>\<rparr>
       = ''{c '' @ [CHR 0x5C, CHR 0x5C] @ ''}''
   \<and> CommandSpan_toString \<lparr>type = CODE, textSpan = \<lparr>text = ''a'' @ [CHR 0x5C] @ ''b''\<rparr>\<rparr>
       = ''{c a'' @ [CHR 0x5C] @ ''b}''"
proof -
  have "\<exists>canonical aliases.
      getCommands (type cs) = canonical # aliases \<and>
      CommandSpan_toString cs =
        ''{'' @ canonical
        @ (if text (textSpan cs) = [] then []
           else '' ''
                @ (if text (textSpan cs) \<in> {[CHR 0x5C], ''{'', ''}''} then [CHR 0x5C] else [])
                @ text (textSpan cs))
        @ ''}''"
    by (cases "type cs")
       (auto simp: CommandSpan_toString_def escapeLoneSpecial_def Let_def split: list.splits)
  moreover have "CommandSpan_toString \<lparr>type = CODE, textSpan = \<lparr>text = [CHR 0x5C]\<rparr>\<rparr>
       = ''{c '' @ [CHR 0x5C, CHR 0x5C] @ ''}''"
    by (simp add: CommandSpan_toString_def escapeLoneSpecial_def)
  moreover have
    "CommandSpan_toString \<lparr>type = CODE, textSpan = \<lparr>text = ''a'' @ [CHR 0x5C] @ ''b''\<rparr>\<rparr>
       = ''{c a'' @ [CHR 0x5C] @ ''b}''"
    by (simp add: CommandSpan_toString_def escapeLoneSpecial_def)
  ultimately show ?thesis by blast
qed

theorem CommandSpan_toString_format_witness:
  "CommandSpan_toString \<lparr>type = CURLY_BRACE_OPEN, textSpan = \<lparr>text = ''{''\<rparr>\<rparr>
     = ''{cb '' @ [CHR 0x5C] @ ''{}''
   \<and> CommandSpan_toString \<lparr>type = MESSAGE, textSpan = \<lparr>text = ''{}''\<rparr>\<rparr> = ''{m {}}''
   \<and> CommandSpan_toString \<lparr>type = PROPER_NAME, textSpan = \<lparr>text = ''''\<rparr>\<rparr> = ''{p}''"
  using CommandSpan_toString_format
          [of "\<lparr>type = CURLY_BRACE_OPEN, textSpan = \<lparr>text = ''{''\<rparr>\<rparr>"]
        CommandSpan_toString_format [of "\<lparr>type = MESSAGE, textSpan = \<lparr>text = ''{}''\<rparr>\<rparr>"]
        CommandSpan_toString_format [of "\<lparr>type = PROPER_NAME, textSpan = \<lparr>text = ''''\<rparr>\<rparr>"]
  by simp

text \<open>
  Claim C2 says that every line break inside an item is indented. \<open>List.toString\<close> indents
  the first line break of an item only: an item with the text \<open>a\<close>, \<open>b\<close>, \<open>c\<close> on three
  lines is written with \<open>c\<close> at the start of its line. This item is what the parser builds
  from a list item with two continuation lines, and the text written for it does not parse
  back to it: the line of \<open>c\<close> has become a paragraph.
\<close>

theorem List_toString_indents_first_break_only:
  "List_toString [[IsTextSpan \<lparr>text = ''a\<newline>b\<newline>c''\<rparr>]] = ''\<newline>* a\<newline>  b\<newline>c\<newline>''
   \<and> List_toString [[IsTextSpan \<lparr>text = ''a\<newline>b\<newline>c''\<rparr>]] \<noteq> ''\<newline>* a\<newline>  b\<newline>  c\<newline>''
   \<and> parseDescription ''* a\<newline>  b\<newline>  c''
       = Inr \<lparr>elements = [List [[IsTextSpan \<lparr>text = ''a\<newline>b\<newline>c''\<rparr>]]]\<rparr>
   \<and> Description_toString \<lparr>elements = [List [[IsTextSpan \<lparr>text = ''a\<newline>b\<newline>c''\<rparr>]]]\<rparr>
       = ''* a\<newline>  b\<newline>c''
   \<and> parseDescription ''* a\<newline>  b\<newline>c''
       = Inr \<lparr>elements = [List [[IsTextSpan \<lparr>text = ''a\<newline>b''\<rparr>]],
                           Paragraph [IsTextSpan \<lparr>text = ''c''\<rparr>]]\<rparr>"
  by code_simp

section \<open>Properties of the span optimizer\<close>

subsection \<open>Collapsing whitespace twice\<close>

lemma compress_Nil_iff: "compress s = [] \<longleftrightarrow> s = []"
  by (cases s) simp_all

lemma compress_append_left: "compress (compress x @ y) = compress (x @ y)"
proof (induction x rule: compress.induct)
  case 1
  show ?case by simp
next
  case (2 c cs)
  show ?case
  proof (cases "is_space c")
    case False
    with 2 show ?thesis by simp
  next
    case True
    note c = True
    let ?d = "dropWhile is_space cs"
    have IH: "compress (compress ?d @ y) = compress (?d @ y)" using 2(1) [OF c] .
    show ?thesis
    proof (cases ?d)
      case Nil
      then have all: "\<forall>x \<in> set cs. is_space x" by (simp add: dropWhile_eq_Nil_all)
      then have "dropWhile is_space (cs @ y) = dropWhile is_space y"
        by (induction cs) simp_all
      have "compress (compress (c # cs) @ y) = c # compress (dropWhile is_space (compress ?d @ y))"
        using c by simp
      also have "\<dots> = c # compress (dropWhile is_space y)" unfolding Nil by simp
      also have "\<dots> = compress ((c # cs) @ y)" using c \<open>dropWhile is_space (cs @ y) = dropWhile is_space y\<close> by simp
      finally show ?thesis .
    next
      case (Cons d ds)
      then have d: "\<not> is_space d" by (metis hd_dropWhile list.sel(1) list.distinct(1))
      have stop: "\<exists>x \<in> set cs. \<not> is_space x"
        using Cons dropWhile_eq_Nil_all [of is_space cs] by auto
      have a: "dropWhile is_space (cs @ y) = ?d @ y"
        by (rule dropWhile_append_stop [OF stop])
      have b: "dropWhile is_space (compress ?d @ y) = compress ?d @ y"
        using Cons d by simp
      have "compress (compress (c # cs) @ y) = c # compress (compress ?d @ y)"
        using c b by simp
      also have "\<dots> = c # compress (?d @ y)" using IH by simp
      also have "\<dots> = compress ((c # cs) @ y)" using c a by simp
      finally show ?thesis .
    qed
  qed
qed

lemma compress_idem: "compress (compress s) = compress s"
  using compress_append_left [of s "[]"] by simp

lemma compress_head: "compress xs = y # ys \<Longrightarrow> \<exists>xs'. xs = y # xs'"
  by (cases xs) (auto split: if_splits)

lemma break_is_space: "is_space (CHR 0x0A)"
  by (simp add: is_space_def)

lemma compress_no_double_break: "\<not> includes_str (compress s) [CHR 0x0A, CHR 0x0A]"
proof (induction s rule: compress.induct)
  case 1
  show ?case by simp
next
  case (2 c cs)
  show ?case
  proof (cases "is_space c")
    case True
    let ?d = "dropWhile is_space cs"
    have "\<not> startsWith (c # compress ?d) [CHR 0x0A, CHR 0x0A]"
    proof
      assume "startsWith (c # compress ?d) [CHR 0x0A, CHR 0x0A]"
      then obtain ds where "compress ?d = CHR 0x0A # ds"
        unfolding startsWith_two_breaks by blast
      then obtain xs' where d: "?d = CHR 0x0A # xs'" using compress_head by blast
      then have "\<not> is_space (CHR 0x0A)" by (metis hd_dropWhile list.sel(1) list.distinct(1))
      with break_is_space show False by simp
    qed
    with 2(1) [OF True] True show ?thesis by simp
  next
    case False
    with break_is_space have "c \<noteq> CHR 0x0A" by auto
    then have "\<not> startsWith (c # compress cs) [CHR 0x0A, CHR 0x0A]"
      unfolding startsWith_two_breaks by simp
    with 2(2) [OF False] False show ?thesis by simp
  qed
qed

lemma new_TextSpan_cases:
  "new_TextSpan s = Inl MultipleLineBreaks \<or> new_TextSpan s = Inr \<lparr>text = collapse_runs s\<rparr>"
  by (simp add: new_TextSpan_def compress_eq_collapse_runs)

lemma collapse_runs_Nil_iff: "collapse_runs s = [] \<longleftrightarrow> s = []"
  using compress_Nil_iff [of s] by (simp add: compress_eq_collapse_runs)

lemma collapse_runs_append_left: "collapse_runs (collapse_runs x @ y) = collapse_runs (x @ y)"
  using compress_append_left [of x y] by (simp add: compress_eq_collapse_runs)

lemma constructed_text:
  assumes "constructed (IsTextSpan t)"
  shows "text t = collapse_runs (text t)"
proof -
  from assms have "new_TextSpan (text t) = Inr t" by (simp add: constructed_def)
  with new_TextSpan_cases [of "text t"] have "Inr t = (Inr \<lparr>text = collapse_runs (text t)\<rparr> :: error + TextSpan)"
    by auto
  then have "t = \<lparr>text = collapse_runs (text t)\<rparr>" by (simp only: sum.inject)
  then have "text t = text \<lparr>text = collapse_runs (text t)\<rparr>" by (rule arg_cong)
  then show ?thesis by (simp only: TextSpan.select_convs)
qed

text \<open>
  A text span is \<^const>\<open>constructed\<close> exactly when the constructor returns it for some
  string.
\<close>

lemma constructed_iff:
  "constructed (IsTextSpan t) \<longleftrightarrow> (\<exists>s. new_TextSpan s = Inr t)"
proof
  assume "constructed (IsTextSpan t)"
  then show "\<exists>s. new_TextSpan s = Inr t" by (auto simp: constructed_def)
next
  assume "\<exists>s. new_TextSpan s = Inr t"
  then obtain s where "new_TextSpan s = Inr t" ..
  then have t: "t = \<lparr>text = compress s\<rparr>" by (auto simp: new_TextSpan_def split: if_splits)
  show "constructed (IsTextSpan t)"
    unfolding t by (simp add: constructed_def new_TextSpan_def compress_no_double_break compress_idem)
qed

subsection \<open>One step of the loop\<close>

lemma step_command:
  "optimize_step (acc @ [x]) (IsCommandSpan c) = Inr (acc @ [x, IsCommandSpan c])"
  by (simp add: optimize_step_def)

lemma step_empty_text:
  "text t = [] \<Longrightarrow> optimize_step (acc @ [x]) (IsTextSpan t) = Inr (acc @ [x])"
  by (simp add: optimize_step_def)

lemma step_text_after_command:
  "text t \<noteq> [] \<Longrightarrow>
     optimize_step (acc @ [IsCommandSpan c]) (IsTextSpan t) = Inr (acc @ [IsCommandSpan c, IsTextSpan t])"
  by (simp add: optimize_step_def)

lemma step_text_after_text:
  "text t \<noteq> [] \<Longrightarrow>
     optimize_step (pre @ [IsTextSpan l]) (IsTextSpan t) =
       (case new_TextSpan (text l @ text t) of
          Inl e \<Rightarrow> Inl e
        | Inr merged \<Rightarrow> Inr (pre @ [IsTextSpan merged]))"
  by (simp add: optimize_step_def split: sum.splits)

lemma loop_command:
  "optimize_loop (acc @ [x]) (IsCommandSpan c # es)
     = optimize_loop ((acc @ [x]) @ [IsCommandSpan c]) es"
  by (simp add: step_command)

lemma loop_empty_text:
  "text t = [] \<Longrightarrow>
     optimize_loop (acc @ [x]) (IsTextSpan t # es) = optimize_loop (acc @ [x]) es"
  by (simp add: step_empty_text)

lemma loop_text_after_command:
  "text t \<noteq> [] \<Longrightarrow>
     optimize_loop (acc @ [IsCommandSpan c]) (IsTextSpan t # es)
       = optimize_loop ((acc @ [IsCommandSpan c]) @ [IsTextSpan t]) es"
  by (simp add: step_text_after_command)

subsection \<open>The loop and the merged runs\<close>

lemma merge_runs_empty_text:
  "text t = [] \<Longrightarrow> merge_runs (IsTextSpan t # es) = merge_runs es"
proof (cases es)
  case Nil
  assume "text t = []"
  with Nil show ?thesis by simp
next
  case (Cons e es')
  assume t: "text t = []"
  show ?thesis
  proof (cases e)
    case (IsTextSpan u)
    with Cons t show ?thesis by simp
  next
    case (IsCommandSpan c)
    with Cons t show ?thesis by simp
  qed
qed

lemma merge_runs_text:
  "text t \<noteq> [] \<Longrightarrow>
     merge_runs (IsTextSpan t # es)
       = IsTextSpan \<lparr>text = collapse_runs (text t @ concat (map text_of (takeWhile is_text es)))\<rparr>
         # merge_runs (dropWhile is_text es)"
  by simp

lemma TextSpan_eq: "(l :: TextSpan) = \<lparr>text = text l\<rparr>"
  by simp

subsection \<open>Line breaks that meet\<close>

lemma collapse_runs_Nil: "collapse_runs [] = []"
  by (simp add: collapse_runs_def)

lemma list_ex_upt: "list_ex P [0..<n] \<longleftrightarrow> (\<exists>k<n. P k)"
  by (auto simp: list_ex_iff)

lemma breaks_meet_from_Nil: "breaks_meet_from X [] = False"
  by (simp add: breaks_meet_from_def)

lemma ex_less_Suc: "(\<exists>k<Suc n. Q k) \<longleftrightarrow> Q 0 \<or> (\<exists>k<n. Q (Suc k))"
  by (auto simp: less_Suc_eq_0_disj)

lemma breaks_meet_from_Cons:
  "breaks_meet_from X (u # us) \<longleftrightarrow>
     (ends_with_break (collapse_runs X) \<and> starts_with_break u) \<or> breaks_meet_from (X @ u) us"
  unfolding breaks_meet_from_def list_ex_upt length_Cons ex_less_Suc by simp

lemma includes_append_two_breaks:
  "includes_str (x @ y) [CHR 0x0A, CHR 0x0A] \<longleftrightarrow>
     includes_str x [CHR 0x0A, CHR 0x0A] \<or> includes_str y [CHR 0x0A, CHR 0x0A]
     \<or> (ends_with_break x \<and> starts_with_break y)"
proof (induction x)
  case Nil
  show ?case by (simp add: ends_with_break_def)
next
  case (Cons c cs)
  show ?case
  proof (cases cs)
    case Nil
    have "startsWith (c # y) [CHR 0x0A, CHR 0x0A] \<longleftrightarrow> c = CHR 0x0A \<and> starts_with_break y"
      unfolding startsWith_two_breaks by (cases y) (auto simp: starts_with_break_def)
    then show ?thesis
      unfolding Nil by (auto simp: ends_with_break_def startsWith_two_breaks)
  next
    case (Cons d ds)
    have a: "startsWith ((c # cs) @ y) [CHR 0x0A, CHR 0x0A]
               \<longleftrightarrow> startsWith (c # cs) [CHR 0x0A, CHR 0x0A]"
      unfolding Cons by (simp add: startsWith_two_breaks)
    have b: "ends_with_break (c # cs) = ends_with_break cs"
      unfolding Cons by (simp add: ends_with_break_def)
    have "includes_str ((c # cs) @ y) [CHR 0x0A, CHR 0x0A]
            \<longleftrightarrow> startsWith ((c # cs) @ y) [CHR 0x0A, CHR 0x0A]
                \<or> includes_str (cs @ y) [CHR 0x0A, CHR 0x0A]"
      by simp
    also have "\<dots> \<longleftrightarrow> startsWith (c # cs) [CHR 0x0A, CHR 0x0A]
                \<or> (includes_str cs [CHR 0x0A, CHR 0x0A] \<or> includes_str y [CHR 0x0A, CHR 0x0A]
                    \<or> (ends_with_break cs \<and> starts_with_break y))"
      unfolding a Cons.IH ..
    also have "\<dots> \<longleftrightarrow> includes_str (c # cs) [CHR 0x0A, CHR 0x0A]
                \<or> includes_str y [CHR 0x0A, CHR 0x0A]
                \<or> (ends_with_break (c # cs) \<and> starts_with_break y)"
      unfolding b by auto
    finally show ?thesis .
  qed
qed

lemma collapse_runs_no_double_break: "\<not> includes_str (collapse_runs X) [CHR 0x0A, CHR 0x0A]"
  using compress_no_double_break [of X] by (simp add: compress_eq_collapse_runs)

lemma constructed_no_double_break:
  "constructed (IsTextSpan t) \<Longrightarrow> \<not> includes_str (text t) [CHR 0x0A, CHR 0x0A]"
  by (auto simp: constructed_def new_TextSpan_def split: if_splits)

lemma new_TextSpan_merge:
  assumes "\<not> includes_str u [CHR 0x0A, CHR 0x0A]"
  shows "new_TextSpan (collapse_runs X @ u) =
           (if ends_with_break (collapse_runs X) \<and> starts_with_break u
            then Inl MultipleLineBreaks
            else Inr \<lparr>text = collapse_runs (X @ u)\<rparr>)"
proof -
  have "includes_str (collapse_runs X @ u) [CHR 0x0A, CHR 0x0A]
          \<longleftrightarrow> ends_with_break (collapse_runs X) \<and> starts_with_break u"
    unfolding includes_append_two_breaks using assms collapse_runs_no_double_break by simp
  then show ?thesis
    by (simp add: new_TextSpan_def compress_eq_collapse_runs collapse_runs_append_left)
qed

lemma loop_text_after_text:
  assumes "text t \<noteq> []" and "\<not> includes_str (text t) [CHR 0x0A, CHR 0x0A]"
  shows "optimize_loop (pre @ [IsTextSpan \<lparr>text = collapse_runs X\<rparr>]) (IsTextSpan t # es) =
           (if ends_with_break (collapse_runs X) \<and> starts_with_break (text t)
            then Inl MultipleLineBreaks
            else optimize_loop (pre @ [IsTextSpan \<lparr>text = collapse_runs (X @ text t)\<rparr>]) es)"
  by (simp add: step_text_after_text [OF assms(1)] new_TextSpan_merge [OF assms(2)])

lemma breaks_meet_text:
  "breaks_meet (IsTextSpan t # es) \<longleftrightarrow>
     breaks_meet_from (text t) (map text_of (takeWhile is_text es))
     \<or> breaks_meet (dropWhile is_text es)"
  by (simp add: breaks_meet_from_Cons collapse_runs_Nil ends_with_break_def)

declare breaks_meet.simps(3) [simp del]

lemma breaks_meet_empty_text:
  assumes "text t = []"
  shows "breaks_meet (IsTextSpan t # es) = breaks_meet es"
proof (cases es)
  case Nil
  then show ?thesis using assms by (simp add: breaks_meet_text breaks_meet_from_Nil)
next
  case (Cons e es')
  show ?thesis
  proof (cases e)
    case (IsTextSpan u)
    show ?thesis
      unfolding Cons IsTextSpan breaks_meet_text using assms
      by (simp add: breaks_meet_from_Cons collapse_runs_Nil ends_with_break_def)
  next
    case (IsCommandSpan c)
    show ?thesis
      unfolding Cons IsCommandSpan breaks_meet_text using assms
      by (simp add: breaks_meet_from_Nil)
  qed
qed

subsection \<open>The result of the loop\<close>

text \<open>
  The loop after the first element, in its two states: the last element kept so far is a
  command span, or it is a text span that holds the collapsed text \<open>X\<close> of the run read
  so far.
\<close>

lemma optimize_loop_merge:
  assumes "\<forall>e \<in> set es. constructed e"
  shows "(\<forall>acc c.
            optimize_loop (acc @ [IsCommandSpan c]) es
              = (if breaks_meet es then Inl MultipleLineBreaks
                 else Inr (acc @ IsCommandSpan c # merge_runs es)))
       \<and> (\<forall>pre X.
            X \<noteq> [] \<longrightarrow>
              optimize_loop (pre @ [IsTextSpan \<lparr>text = collapse_runs X\<rparr>]) es
                = (if breaks_meet_from X (map text_of (takeWhile is_text es))
                      \<or> breaks_meet (dropWhile is_text es)
                   then Inl MultipleLineBreaks
                   else Inr (pre
                             @ IsTextSpan
                                 \<lparr>text = collapse_runs
                                           (X @ concat (map text_of (takeWhile is_text es)))\<rparr>
                             # merge_runs (dropWhile is_text es))))"
    (is "?C es \<and> ?T es")
  using assms
proof (induction es)
  case Nil
  show ?case by (simp add: breaks_meet_from_Nil)
next
  case (Cons e es)
  from Cons.prems have ce: "constructed e" and ces: "\<forall>e \<in> set es. constructed e"
    by simp_all
  note IH1 = Cons.IH [OF ces, THEN conjunct1, rule_format]
  note IH2 = Cons.IH [OF ces, THEN conjunct2, rule_format]
  show ?case
  proof (cases e)
    case (IsCommandSpan c')
    have "?C (e # es)"
      unfolding IsCommandSpan loop_command IH1 by simp
    moreover have "?T (e # es)"
      unfolding IsCommandSpan loop_command IH1 by (simp add: breaks_meet_from_Nil)
    ultimately show ?thesis by (rule conjI)
  next
    case (IsTextSpan t)
    from ce have tt: "text t = collapse_runs (text t)"
      unfolding IsTextSpan by (rule constructed_text)
    from ce have nb: "\<not> includes_str (text t) [CHR 0x0A, CHR 0x0A]"
      unfolding IsTextSpan by (rule constructed_no_double_break)
    show ?thesis
    proof (cases "text t = []")
      case True
      have "?C (e # es)"
        unfolding IsTextSpan loop_empty_text [OF True] merge_runs_empty_text [OF True]
          breaks_meet_empty_text [OF True] IH1 by simp
      moreover have "?T (e # es)"
      proof (intro allI impI)
        fix pre and X :: string
        assume X: "X \<noteq> []"
        show "optimize_loop (pre @ [IsTextSpan \<lparr>text = collapse_runs X\<rparr>]) (e # es)
                = (if breaks_meet_from X (map text_of (takeWhile is_text (e # es)))
                      \<or> breaks_meet (dropWhile is_text (e # es))
                   then Inl MultipleLineBreaks
                   else Inr (pre
                             @ IsTextSpan
                                 \<lparr>text = collapse_runs
                                           (X @ concat (map text_of (takeWhile is_text (e # es))))\<rparr>
                             # merge_runs (dropWhile is_text (e # es))))"
          unfolding IsTextSpan loop_empty_text [OF True] IH2 [OF X]
          using True by (simp add: breaks_meet_from_Cons starts_with_break_def)
      qed
      ultimately show ?thesis by (rule conjI)
    next
      case False
      have t_eq: "t = \<lparr>text = collapse_runs (text t)\<rparr>"
        by (subst tt [symmetric]) (rule TextSpan_eq)
      have "?C (e # es)"
      proof (intro allI)
        fix acc c
        have "optimize_loop ((acc @ [IsCommandSpan c]) @ [IsTextSpan t]) es
                = optimize_loop ((acc @ [IsCommandSpan c])
                                 @ [IsTextSpan \<lparr>text = collapse_runs (text t)\<rparr>]) es"
          using t_eq by simp
        also have "\<dots> = (if breaks_meet (IsTextSpan t # es) then Inl MultipleLineBreaks
                 else Inr ((acc @ [IsCommandSpan c]) @ merge_runs (IsTextSpan t # es)))"
          unfolding IH2 [OF False] merge_runs_text [OF False] breaks_meet_text by simp
        finally show "optimize_loop (acc @ [IsCommandSpan c]) (e # es)
              = (if breaks_meet (e # es) then Inl MultipleLineBreaks
                 else Inr (acc @ IsCommandSpan c # merge_runs (e # es)))"
          unfolding IsTextSpan loop_text_after_command [OF False] by simp
      qed
      moreover have "?T (e # es)"
      proof (intro allI impI)
        fix pre and X :: string
        assume X: "X \<noteq> []"
        have X': "X @ text t \<noteq> []" using X by simp
        show "optimize_loop (pre @ [IsTextSpan \<lparr>text = collapse_runs X\<rparr>]) (e # es)
                = (if breaks_meet_from X (map text_of (takeWhile is_text (e # es)))
                      \<or> breaks_meet (dropWhile is_text (e # es))
                   then Inl MultipleLineBreaks
                   else Inr (pre
                             @ IsTextSpan
                                 \<lparr>text = collapse_runs
                                           (X @ concat (map text_of (takeWhile is_text (e # es))))\<rparr>
                             # merge_runs (dropWhile is_text (e # es))))"
          unfolding IsTextSpan loop_text_after_text [OF False nb] IH2 [OF X']
          by (simp add: breaks_meet_from_Cons)
      qed
      ultimately show ?thesis by (rule conjI)
    qed
  qed
qed

text \<open>
  An empty text span that comes first is kept by the first step, and is merged away by the
  first text of its run that is not empty.
\<close>

lemma leading_empty_text_skipped:
  assumes "\<forall>e \<in> set es. constructed e"
    and "concat (map text_of (takeWhile is_text es)) \<noteq> []"
    and "text e0 = []"
  shows "optimize_loop [IsTextSpan e0] es = optimize_loop [] es"
  using assms
proof (induction es arbitrary: e0)
  case Nil
  then show ?case by simp
next
  case (Cons e es)
  show ?case
  proof (cases e)
    case (IsCommandSpan c)
    with Cons.prems(2) show ?thesis by simp
  next
    case (IsTextSpan t)
    from Cons.prems(1) have ces: "\<forall>e \<in> set es. constructed e" and ct: "constructed (IsTextSpan t)"
      unfolding IsTextSpan by simp_all
    have first: "optimize_loop [] (IsTextSpan t # es) = optimize_loop [IsTextSpan t] es"
      by (simp add: optimize_step_def)
    show ?thesis
    proof (cases "text t = []")
      case True
      from Cons.prems(2) True have run: "concat (map text_of (takeWhile is_text es)) \<noteq> []"
        unfolding IsTextSpan by simp
      have "optimize_loop [IsTextSpan e0] (IsTextSpan t # es) = optimize_loop [IsTextSpan e0] es"
        using loop_empty_text [OF True, of "[]" "IsTextSpan e0" es] by simp
      also have "\<dots> = optimize_loop [] es" by (rule Cons.IH [OF ces run Cons.prems(3)])
      also have "\<dots> = optimize_loop [IsTextSpan t] es"
        by (rule Cons.IH [OF ces run True, symmetric])
      finally show ?thesis unfolding IsTextSpan first .
    next
      case False
      from ct have "new_TextSpan (text t) = Inr t" by (simp add: constructed_def)
      then have "optimize_step ([] @ [IsTextSpan e0]) (IsTextSpan t) = Inr ([] @ [IsTextSpan t])"
        unfolding step_text_after_text [OF False] using Cons.prems(3) by simp
      then show ?thesis unfolding IsTextSpan first by simp
    qed
  qed
qed

text \<open>
  Claim C3, as amended. Take a sequence of inline elements whose text spans were built by
  the constructor, and that does not begin with a run of text spans that are all empty.
  \<open>optimizeElements\<close> fails with "multiple line breaks in text" exactly when, in a maximal
  run of adjacent text spans, a text begins with a line break while the texts before it in
  the run, concatenated and with their runs of whitespace collapsed, end with a line break.
  Otherwise it returns the sequence in which every maximal run of adjacent text spans is
  merged into one text span, whose text is the concatenation of the texts of the run with
  every run of whitespace collapsed to its first code unit; a run whose texts are all empty
  is dropped, the command spans are unchanged, the order is kept, and no text is merged
  across a command span.
\<close>

theorem optimizeElements_merges_runs:
  assumes "\<forall>e \<in> set es. constructed e" and "\<not> leading_run_empty es"
  shows "optimizeElements es =
           (if breaks_meet es then Inl MultipleLineBreaks else Inr (merge_runs es))"
  using assms
proof (induction es)
  case Nil
  show ?case by (simp add: optimizeElements_def)
next
  case (Cons e es')
  from Cons.prems(1) have ces: "\<forall>e \<in> set es'. constructed e" and ce: "constructed e"
    by simp_all
  have first: "optimizeElements (e # es') = optimize_loop ([] @ [e]) es'"
    by (simp add: optimizeElements_def optimize_step_def)
  show ?case
  proof (cases e)
    case (IsCommandSpan c)
    show ?thesis
      unfolding first unfolding IsCommandSpan
        optimize_loop_merge [OF ces, THEN conjunct1, rule_format]
      by simp
  next
    case (IsTextSpan t)
    from ce have tt: "text t = collapse_runs (text t)"
      unfolding IsTextSpan by (rule constructed_text)
    have t_eq: "t = \<lparr>text = collapse_runs (text t)\<rparr>"
      by (subst tt [symmetric]) (rule TextSpan_eq)
    show ?thesis
    proof (cases "text t = []")
      case False
      have "optimize_loop ([] @ [IsTextSpan t]) es'
              = optimize_loop ([] @ [IsTextSpan \<lparr>text = collapse_runs (text t)\<rparr>]) es'"
        using t_eq by simp
      also have "\<dots> = (if breaks_meet (IsTextSpan t # es') then Inl MultipleLineBreaks
                          else Inr (merge_runs (IsTextSpan t # es')))"
        unfolding optimize_loop_merge [OF ces, THEN conjunct2, rule_format, OF False]
          merge_runs_text [OF False] breaks_meet_text
        by simp
      finally show ?thesis unfolding first unfolding IsTextSpan .
    next
      case True
      from Cons.prems(2) True have run: "concat (map text_of (takeWhile is_text es')) \<noteq> []"
        unfolding IsTextSpan by (simp add: leading_run_empty_def)
      then have nle: "\<not> leading_run_empty es'"
        by (auto simp: leading_run_empty_def split: list.splits DescriptionInlineElement.splits)
      have "optimizeElements (e # es') = optimize_loop [IsTextSpan t] es'"
        using first unfolding IsTextSpan by simp
      also have "\<dots> = optimizeElements es'"
        unfolding optimizeElements_def by (rule leading_empty_text_skipped [OF ces run True])
      also have "\<dots> = (if breaks_meet es' then Inl MultipleLineBreaks else Inr (merge_runs es'))"
        by (rule Cons.IH [OF ces nle])
      finally show ?thesis
        unfolding IsTextSpan merge_runs_empty_text [OF True] breaks_meet_empty_text [OF True] .
    qed
  qed
qed

theorem optimizeElements_merges_runs_witness:
  "optimizeElements
     [IsTextSpan \<lparr>text = ''a ''\<rparr>, IsTextSpan \<lparr>text = '' b''\<rparr>,
      IsCommandSpan \<lparr>type = EMPHASIS, textSpan = \<lparr>text = ''x''\<rparr>\<rparr>,
      IsTextSpan \<lparr>text = []\<rparr>, IsTextSpan \<lparr>text = ''c''\<rparr>, IsTextSpan \<lparr>text = ''\<newline>''\<rparr>,
      IsTextSpan \<lparr>text = ''d''\<rparr>]
     = Inr [IsTextSpan \<lparr>text = ''a b''\<rparr>,
            IsCommandSpan \<lparr>type = EMPHASIS, textSpan = \<lparr>text = ''x''\<rparr>\<rparr>,
            IsTextSpan \<lparr>text = ''c\<newline>d''\<rparr>]
   \<and> optimizeElements
       [IsTextSpan \<lparr>text = ''a\<newline>''\<rparr>, IsTextSpan \<lparr>text = '' ''\<rparr>, IsTextSpan \<lparr>text = ''\<newline>b''\<rparr>]
     = Inl MultipleLineBreaks
   \<and> optimizeElements [IsTextSpan \<lparr>text = []\<rparr>, IsTextSpan \<lparr>text = ''a''\<rparr>]
     = Inr [IsTextSpan \<lparr>text = ''a''\<rparr>]"
proof -
  let ?ok = "[IsTextSpan \<lparr>text = ''a ''\<rparr>, IsTextSpan \<lparr>text = '' b''\<rparr>,
      IsCommandSpan \<lparr>type = EMPHASIS, textSpan = \<lparr>text = ''x''\<rparr>\<rparr>,
      IsTextSpan \<lparr>text = []\<rparr>, IsTextSpan \<lparr>text = ''c''\<rparr>, IsTextSpan \<lparr>text = ''\<newline>''\<rparr>,
      IsTextSpan \<lparr>text = ''d''\<rparr>]"
  let ?bad = "[IsTextSpan \<lparr>text = ''a\<newline>''\<rparr>, IsTextSpan \<lparr>text = '' ''\<rparr>,
               IsTextSpan \<lparr>text = ''\<newline>b''\<rparr>]"
  let ?lead = "[IsTextSpan \<lparr>text = []\<rparr>, IsTextSpan \<lparr>text = ''a''\<rparr>]"
  have c: "\<forall>e \<in> set ?ok. constructed e" "\<forall>e \<in> set ?bad. constructed e"
    "\<forall>e \<in> set ?lead. constructed e"
    by code_simp+
  have n: "\<not> leading_run_empty ?ok" "\<not> leading_run_empty ?bad" "\<not> leading_run_empty ?lead"
    by code_simp+
  have b: "\<not> breaks_meet ?ok" "breaks_meet ?bad" "\<not> breaks_meet ?lead"
    by code_simp+
  have m: "merge_runs ?ok
     = [IsTextSpan \<lparr>text = ''a b''\<rparr>,
        IsCommandSpan \<lparr>type = EMPHASIS, textSpan = \<lparr>text = ''x''\<rparr>\<rparr>,
        IsTextSpan \<lparr>text = ''c\<newline>d''\<rparr>]"
    "merge_runs ?lead = [IsTextSpan \<lparr>text = ''a''\<rparr>]"
    by code_simp+
  from optimizeElements_merges_runs [OF c(1) n(1)] b(1) m(1)
  have 1: "optimizeElements ?ok
     = Inr [IsTextSpan \<lparr>text = ''a b''\<rparr>,
            IsCommandSpan \<lparr>type = EMPHASIS, textSpan = \<lparr>text = ''x''\<rparr>\<rparr>,
            IsTextSpan \<lparr>text = ''c\<newline>d''\<rparr>]"
    by simp
  from optimizeElements_merges_runs [OF c(2) n(2)] b(2)
  have 2: "optimizeElements ?bad = Inl MultipleLineBreaks" by simp
  from optimizeElements_merges_runs [OF c(3) n(3)] b(3) m(2)
  have 3: "optimizeElements ?lead = Inr [IsTextSpan \<lparr>text = ''a''\<rparr>]" by simp
  from 1 2 3 show ?thesis by blast
qed

text \<open>
  Claim C3 as it is stated fails: the text of a merged span is built by the constructor,
  which collapses the two spaces that meet at the seam, and refuses two line breaks that
  meet there; and an empty text span that comes first is kept.
\<close>

theorem optimizeElements_concatenation_counterexample:
  "optimizeElements [IsTextSpan \<lparr>text = ''a ''\<rparr>, IsTextSpan \<lparr>text = '' b''\<rparr>]
     = Inr [IsTextSpan \<lparr>text = ''a b''\<rparr>]
   \<and> ''a b'' \<noteq> ''a '' @ '' b''
   \<and> optimizeElements [IsTextSpan \<lparr>text = ''a\<newline>''\<rparr>, IsTextSpan \<lparr>text = ''\<newline>b''\<rparr>]
     = Inl MultipleLineBreaks
   \<and> optimizeElements [IsTextSpan \<lparr>text = []\<rparr>,
                        IsCommandSpan \<lparr>type = EMPHASIS, textSpan = \<lparr>text = ''x''\<rparr>\<rparr>]
     = Inr [IsTextSpan \<lparr>text = []\<rparr>,
            IsCommandSpan \<lparr>type = EMPHASIS, textSpan = \<lparr>text = ''x''\<rparr>\<rparr>]"
  by code_simp

section \<open>Properties of the parser\<close>

text \<open>
  Claim C8. Parsing \<open>"{zzz text}"\<close> gives no document: it fails with "unknown command" and
  the command \<open>zzz\<close>. The failure does not depend on what follows on the line: the scan
  ends at the first error. The two last conjuncts are documents of two lines that are both
  in error: the error of the first line is the one returned.
\<close>

theorem parseDescription_unknown_command:
  "parseDescription ''{zzz text}'' = Inl (UnknownCommand ''zzz'')
   \<and> (\<forall>rest. parseInlineElementes (''{zzz text}'' @ rest) = Inl (UnknownCommand ''zzz''))
   \<and> parseDescription ''{zzz text}\<newline>{'' = Inl (UnknownCommand ''zzz'')
   \<and> parseDescription ''a {\<newline>{zzz text}'' = Inl BracesWithoutCommand"
proof -
  have "parseDescription ''{zzz text}'' = Inl (UnknownCommand ''zzz'')"
    by code_simp
  moreover have "parseDescription ''{zzz text}\<newline>{'' = Inl (UnknownCommand ''zzz'')"
    by code_simp
  moreover have "parseDescription ''a {\<newline>{zzz text}'' = Inl BracesWithoutCommand"
    by code_simp
  moreover have "parseInlineElementes (''{zzz text}'' @ rest) = Inl (UnknownCommand ''zzz'')"
    for rest
    by (simp add: parseInlineElementes_def pushTextSpan_def is_token_char_def is_space_def
                  fromCommand_def values_list_def)
  ultimately show ?thesis by blast
qed

text \<open>
  Claim C9. Parsing \<open>"{p }"\<close> gives one command span of type \<open>PROPER_NAME\<close> whose text is
  empty, and this span is written \<open>"{p}"\<close>.
\<close>

theorem parse_empty_command_content:
  "parseInlineElementes ''{p }''
     = Inr [IsCommandSpan \<lparr>type = PROPER_NAME, textSpan = \<lparr>text = ''''\<rparr>\<rparr>]
   \<and> parseDescription ''{p }''
     = Inr \<lparr>elements =
              [Paragraph [IsCommandSpan \<lparr>type = PROPER_NAME, textSpan = \<lparr>text = ''''\<rparr>\<rparr>]]\<rparr>
   \<and> CommandSpan_toString \<lparr>type = PROPER_NAME, textSpan = \<lparr>text = ''''\<rparr>\<rparr> = ''{p}''
   \<and> Description_toString
        \<lparr>elements =
           [Paragraph [IsCommandSpan \<lparr>type = PROPER_NAME, textSpan = \<lparr>text = ''''\<rparr>\<rparr>]]\<rparr>
     = ''{p}''"
  by code_simp

subsection \<open>Continuation lines of a list item\<close>

lemma list_update_last: "xs \<noteq> [] \<Longrightarrow> xs[length xs - Suc 0 := x] = butlast xs @ [x]"
  by (induction xs rule: rev_induct) simp_all

lemma push_to_last_nonempty:
  "items \<noteq> [] \<Longrightarrow> push_to_last items es = Inr (butlast items @ [last items @ es])"
  by (simp add: push_to_last_def list_update_last)

lemma new_TextSpan_break: "new_TextSpan [CHR 0x0A] = Inr \<lparr>text = [CHR 0x0A]\<rparr>"
  by (simp add: new_TextSpan_def startsWith_def is_space_def)

lemma two_spaces_not_item: "startsWith line ''  '' \<Longrightarrow> \<not> startsWith line ''* ''"
  by (cases line) (auto simp: startsWith_def)

lemma push_to_last_Inr: "push_to_last items es = Inr items' \<Longrightarrow> items' \<noteq> []"
  by (auto simp: push_to_last_def split: if_splits)

lemma pushParagraphElements_listItems:
  "pushParagraphElements st = Inr st' \<Longrightarrow> listItems st' = listItems st"
  by (auto simp: pushParagraphElements_def split: option.splits sum.splits)

lemma pushListItems_listItems:
  "pushListItems st = Inr st' \<Longrightarrow> listItems st' = None"
  by (auto simp: pushListItems_def split: option.splits sum.splits)

lemma line_item_open: "line_item st line = Inr st' \<Longrightarrow> \<exists>items. listItems st' = Some items \<and> items \<noteq> []"
  by (auto simp: line_item_def Let_def split: sum.splits dest: push_to_last_Inr)

lemma line_continuation_open:
  "line_continuation st items line = Inr st' \<Longrightarrow> \<exists>items'. listItems st' = Some items' \<and> items' \<noteq> []"
  by (auto simp: line_continuation_def split: sum.splits if_splits dest: push_to_last_Inr)

lemma line_paragraph_closed: "line_paragraph st line = Inr st' \<Longrightarrow> listItems st' = None"
  by (auto simp: line_paragraph_def Let_def split: sum.splits if_splits dest: pushListItems_listItems)

lemma parse_line_items_nonempty:
  "parse_line st line = Inr st' \<Longrightarrow> listItems st' \<noteq> Some []"
  by (auto simp: parse_line_def split: if_splits option.splits
           dest: line_item_open line_continuation_open line_paragraph_closed)

lemma forEach_parse_line_items_nonempty:
  "forEach_err parse_line st lines = Inr st' \<Longrightarrow> listItems st \<noteq> Some [] \<Longrightarrow>
     listItems st' \<noteq> Some []"
proof (induction lines arbitrary: st)
  case Nil
  then show ?case by simp
next
  case (Cons line lines)
  from Cons.prems(1) obtain st1 where 1: "parse_line st line = Inr st1"
    and 2: "forEach_err parse_line st1 lines = Inr st'"
    by (auto split: sum.splits)
  from Cons.IH [OF 2 parse_line_items_nonempty [OF 1]] show ?case .
qed

text \<open>
  While the lines of a block are read, \<open>listItems\<close> is \<open>null\<close> or holds at least one
  item: the \<open>TypeError\<close> of the model is never raised, and the claim below is about
  every state that the parser reaches with a list open.
\<close>

text \<open>
  Claim C6. When \<open>listItems\<close> is open and a line starts with two spaces, the line is a
  continuation of the last item: its elements are appended to that item, \<open>blocks\<close> and
  \<open>paragraphElements\<close> stay as they are (the list is not closed and no paragraph is
  opened), and a text span holding a line break is put before the elements if and only if
  the item is not empty and the line does not start with three spaces. An error of the
  inline parser on the rest of the line is the error of the line.
\<close>

theorem continuation_line_appends_to_last_item:
  assumes "listItems st = Some items" and "items \<noteq> []" and "startsWith line ''  ''"
  shows "(parseInlineElementes (drop 2 line) = Inr es \<longrightarrow>
            parse_line st line =
              Inr (st\<lparr>listItems :=
                        Some (butlast items
                              @ [last items
                                 @ (if last items \<noteq> [] \<and> \<not> startsWith line ''   ''
                                    then [IsTextSpan \<lparr>text = [CHR 0x0A]\<rparr>] else [])
                                 @ es])\<rparr>))
       \<and> (parseInlineElementes (drop 2 line) = Inl e \<longrightarrow> parse_line st line = Inl e)"
  using assms two_spaces_not_item [OF assms(3)]
  by (simp add: parse_line_def line_continuation_def push_to_last_nonempty new_TextSpan_break)

theorem continuation_line_appends_to_last_item_witness:
  "parse_line \<lparr>blocks = [], paragraphElements = None,
               listItems = Some [[IsTextSpan \<lparr>text = ''a''\<rparr>]]\<rparr> ''  b''
     = Inr \<lparr>blocks = [], paragraphElements = None,
            listItems = Some [[IsTextSpan \<lparr>text = ''a''\<rparr>, IsTextSpan \<lparr>text = [CHR 0x0A]\<rparr>,
                               IsTextSpan \<lparr>text = ''b''\<rparr>]]\<rparr>
   \<and> parse_line \<lparr>blocks = [], paragraphElements = None,
               listItems = Some [[IsTextSpan \<lparr>text = ''a''\<rparr>]]\<rparr> ''   b''
     = Inr \<lparr>blocks = [], paragraphElements = None,
            listItems = Some [[IsTextSpan \<lparr>text = ''a''\<rparr>, IsTextSpan \<lparr>text = '' b''\<rparr>]]\<rparr>
   \<and> parse_line \<lparr>blocks = [], paragraphElements = None, listItems = Some [[]]\<rparr> ''  b''
     = Inr \<lparr>blocks = [], paragraphElements = None,
            listItems = Some [[IsTextSpan \<lparr>text = ''b''\<rparr>]]\<rparr>
   \<and> parse_line \<lparr>blocks = [], paragraphElements = None,
               listItems = Some [[IsTextSpan \<lparr>text = ''a''\<rparr>]]\<rparr> ''  {''
     = Inl BracesWithoutCommand"
proof -
  let ?st = "\<lparr>blocks = [], paragraphElements = None,
               listItems = Some [[IsTextSpan \<lparr>text = ''a''\<rparr>]]\<rparr>"
  let ?empty = "\<lparr>blocks = [], paragraphElements = None, listItems = Some [[]]\<rparr>"
  have p1: "parseInlineElementes (drop 2 ''  b'') = Inr [IsTextSpan \<lparr>text = ''b''\<rparr>]"
    by code_simp
  have p2: "parseInlineElementes (drop 2 ''   b'') = Inr [IsTextSpan \<lparr>text = '' b''\<rparr>]"
    by code_simp
  have p3: "parseInlineElementes (drop 2 ''  {'') = Inl BracesWithoutCommand"
    by code_simp
  have s2: "startsWith ''  b'' ''  ''" "startsWith ''   b'' ''  ''" "startsWith ''  {'' ''  ''"
    by (simp_all add: startsWith_def)
  have s3: "\<not> startsWith ''  b'' ''   ''" "startsWith ''   b'' ''   ''"
    by (simp_all add: startsWith_def)
  have i: "listItems ?st = Some [[IsTextSpan \<lparr>text = ''a''\<rparr>]]" "listItems ?empty = Some [[]]"
    by simp_all
  note t1 = continuation_line_appends_to_last_item [OF i(1) _ s2(1), THEN conjunct1, rule_format, OF _ p1]
  note t2 = continuation_line_appends_to_last_item [OF i(1) _ s2(2), THEN conjunct1, rule_format, OF _ p2]
  note t3 = continuation_line_appends_to_last_item [OF i(2) _ s2(1), THEN conjunct1, rule_format, OF _ p1]
  note t4 = continuation_line_appends_to_last_item [OF i(1) _ s2(3), THEN conjunct2, rule_format, OF _ p3]
  show ?thesis
    using t1 t2 t3 t4 s3 by simp
qed

subsection \<open>A line that ends with an opening brace\<close>

lemma scan_Nil_Inr:
  "scan commandType txt elems [] = Inr es \<Longrightarrow> commandType = None \<and> pushTextSpan txt elems = Inr es"
  by (simp split: if_splits)

lemma scan_open_brace:
  "pushTextSpan txt elems = Inr es \<Longrightarrow> scan None txt elems ''{'' = Inl BracesWithoutCommand"
  by simp

lemma scan_append_open_brace:
  "scan commandType txt elems p = Inr es \<Longrightarrow>
     scan commandType txt elems (p @ ''{'') = Inl BracesWithoutCommand"
proof (induction commandType "txt" elems p rule: scan.induct)
  case (1 commandType buf elems)
  then show ?case by (simp split: if_splits)
next
  case (2 commandType buf elems c rest)
  show ?case
  proof (cases "commandType = None \<and> c = CHR ''{''")
    case True
    note brace = True
    from "2.prems" brace obtain elems' where push: "pushTextSpan buf elems = Inr elems'"
      by (cases "pushTextSpan buf elems") simp_all
    let ?tok = "takeWhile is_token_char rest"
    let ?rest1 = "dropWhile is_token_char rest"
    let ?rest2 = "dropWhile is_space ?rest1"
    from "2.prems" brace push have tok: "?tok \<noteq> []"
      by (auto simp: Let_def split: if_splits)
    from "2.prems" brace push tok obtain ty where ty: "fromCommand ?tok = Some ty"
      by (cases "fromCommand ?tok") (simp_all add: Let_def)
    from "2.prems" brace push tok ty have run: "scan (Some ty) [] elems' ?rest2 = Inr es"
      by (simp add: Let_def)
    have r2: "?rest2 \<noteq> []"
    proof
      assume "?rest2 = []"
      with run show False by simp
    qed
    have r1: "?rest1 \<noteq> []"
    proof
      assume a: "?rest1 = []"
      have "?rest2 = []" unfolding a by simp
      with r2 show False by blast
    qed
    then have stop1: "\<exists>x \<in> set rest. \<not> is_token_char x"
      unfolding dropWhile_eq_Nil_all by blast
    from r2 have stop2: "\<exists>x \<in> set ?rest1. \<not> is_space x"
      unfolding dropWhile_eq_Nil_all by blast
    have tok': "takeWhile is_token_char (rest @ ''{'') = ?tok"
      by (rule takeWhile_append_stop [OF stop1])
    have rest2': "dropWhile is_space (dropWhile is_token_char (rest @ ''{'')) = ?rest2 @ ''{''"
      by (simp only: dropWhile_append_stop [OF stop1] dropWhile_append_stop [OF stop2])
    have IH: "scan (Some ty) [] elems' (?rest2 @ ''{'') = Inl BracesWithoutCommand"
      using "2.IH"(1) [OF brace push refl refl tok refl ty run] .
    show ?thesis
      using brace push tok ty IH tok' rest2'
      by (simp add: Let_def del: dropWhile_append takeWhile_append)
  next
    case False
    note nobrace = False
    show ?thesis
    proof (cases commandType)
      case None
      with nobrace "2.prems" have run: "scan commandType (buf @ [c]) elems rest = Inr es"
        by simp
      from "2.IH"(2) [OF nobrace None run] None nobrace show ?thesis by simp
    next
      case (Some ty)
      show ?thesis
      proof (cases "c = CHR ''}''")
        case True
        from "2.prems" Some True obtain t where t: "new_TextSpan buf = Inr t"
          by (cases "new_TextSpan buf") simp_all
        from "2.prems" Some True t
        have run: "scan None [] (elems @ [IsCommandSpan \<lparr>type = ty, textSpan = t\<rparr>]) rest = Inr es"
          by simp
        from "2.IH"(3) [OF nobrace Some True t run] Some True t show ?thesis by simp
      next
        case False
        note noclose = False
        show ?thesis
        proof (cases rest)
          case Nil
          with "2.prems" Some noclose show ?thesis by simp
        next
          case (Cons escChar rest')
          show ?thesis
          proof (cases "c = CHR 0x5C \<and>
                         (escChar = CHR 0x5C \<or> escChar = CHR ''{'' \<or> escChar = CHR ''}'')")
            case True
            with "2.prems" Some noclose Cons
            have run: "scan commandType (buf @ [escChar]) elems rest' = Inr es"
              by auto
            from "2.IH"(5) [OF nobrace Some noclose Cons True run] Some noclose Cons True
            show ?thesis by auto
          next
            case False
            with "2.prems" Some noclose Cons
            have run: "scan commandType (buf @ [c]) elems rest = Inr es"
              by auto
            from "2.IH"(6) [OF nobrace Some noclose Cons False run] Some noclose Cons False
            show ?thesis by auto
          qed
        qed
      qed
    qed
  qed
qed

text \<open>
  Claim C10, as amended. When a line parses, the line followed by \<open>{\<close> fails with "braces
  without command": the scan is then outside of a command when it reaches the last \<open>{\<close>,
  and the end of the line, met while the command is read, leaves the command empty. (Inside
  a command the last \<open>{\<close> is text, and the line fails with "unclosed command", see
  \<open>open_brace_inside_command_counterexample\<close>.)
\<close>

theorem open_brace_at_end_of_line:
  "parseInlineElementes p = Inr es \<Longrightarrow>
     parseInlineElementes (p @ ''{'') = Inl BracesWithoutCommand"
  unfolding parseInlineElementes_def by (rule scan_append_open_brace)

theorem open_brace_at_end_of_line_witness:
  "parseInlineElementes ''ab {e c} '' =
     Inr [IsTextSpan \<lparr>text = ''ab ''\<rparr>,
          IsCommandSpan \<lparr>type = EMPHASIS, textSpan = \<lparr>text = ''c''\<rparr>\<rparr>,
          IsTextSpan \<lparr>text = '' ''\<rparr>]
   \<and> parseInlineElementes (''ab {e c} '' @ ''{'') = Inl BracesWithoutCommand
   \<and> parseInlineElementes [] = Inr []
   \<and> parseInlineElementes ([] @ ''{'') = Inl BracesWithoutCommand"
proof -
  have p1: "parseInlineElementes ''ab {e c} '' =
     Inr [IsTextSpan \<lparr>text = ''ab ''\<rparr>,
          IsCommandSpan \<lparr>type = EMPHASIS, textSpan = \<lparr>text = ''c''\<rparr>\<rparr>,
          IsTextSpan \<lparr>text = '' ''\<rparr>]"
    by code_simp
  have p2: "parseInlineElementes [] = Inr []"
    by code_simp
  from p1 p2 open_brace_at_end_of_line [OF p1] open_brace_at_end_of_line [OF p2]
  show ?thesis by blast
qed

text \<open>
  Claim C10 as it is stated fails on a line that ends with \<open>{\<close> inside a command: the
  error is "unclosed command".
\<close>

theorem open_brace_inside_command_counterexample:
  "parseInlineElementes ''{e {'' = Inl UnclosedCommand
   \<and> parseInlineElementes ''{e {'' \<noteq> Inl BracesWithoutCommand"
  by code_simp

section \<open>Documents in canonical form\<close>

subsection \<open>Texts that the constructor keeps\<close>

lemma new_TextSpan_fixed: "compress w = w \<Longrightarrow> new_TextSpan w = Inr \<lparr>text = w\<rparr>"
  using compress_no_double_break [of w] by (simp add: new_TextSpan_def)

lemma dropWhile_space_id: "w \<noteq> [] \<Longrightarrow> \<not> is_space (hd w) \<Longrightarrow> dropWhile is_space w = w"
  by (cases w) simp_all

lemma compress_append_after_text:
  "x \<noteq> [] \<Longrightarrow> \<not> is_space (last x) \<Longrightarrow> compress (x @ y) = compress x @ compress y"
proof (induction x rule: compress.induct)
  case 1
  then show ?case by simp
next
  case (2 c cs)
  show ?case
  proof (cases "cs = []")
    case True
    with "2.prems" show ?thesis by simp
  next
    case False
    with "2.prems" have l: "\<not> is_space (last cs)" by simp
    show ?thesis
    proof (cases "is_space c")
      case False
      with "2.IH"(2) [OF False \<open>cs \<noteq> []\<close> l] show ?thesis by simp
    next
      case True
      from \<open>cs \<noteq> []\<close> l have stop: "\<exists>x \<in> set cs. \<not> is_space x"
        using last_in_set by blast
      then have d: "dropWhile is_space cs \<noteq> []"
        by (simp add: dropWhile_eq_Nil_all)
      have ld: "last (dropWhile is_space cs) = last cs"
        using d by (metis append_Nil2 last_appendR takeWhile_dropWhile_id)
      have a: "dropWhile is_space (cs @ y) = dropWhile is_space cs @ y"
        by (rule dropWhile_append_stop [OF stop])
      from "2.IH"(1) [OF True d] l ld
      have "compress (dropWhile is_space cs @ y) = compress (dropWhile is_space cs) @ compress y"
        by simp
      with True a show ?thesis by simp
    qed
  qed
qed

lemma text_line_compress: "text_line w \<Longrightarrow> compress w = w"
  by (simp add: text_line_def compress_eq_collapse_runs)

lemma compress_join_break:
  assumes "x \<noteq> []" "\<not> is_space (last x)" "compress x = x"
    and "y \<noteq> []" "\<not> is_space (hd y)" "compress y = y"
  shows "compress (x @ [CHR 0x0A]) = x @ [CHR 0x0A]"
    and "compress (x @ [CHR 0x0A] @ y) = x @ [CHR 0x0A] @ y"
proof -
  show "compress (x @ [CHR 0x0A]) = x @ [CHR 0x0A]"
    using compress_append_after_text [OF assms(1,2), of "[CHR 0x0A]"] assms(3) by simp
  have "compress (CHR 0x0A # y) = CHR 0x0A # y"
    using break_is_space dropWhile_space_id [OF assms(4,5)] assms(6) by simp
  then show "compress (x @ [CHR 0x0A] @ y) = x @ [CHR 0x0A] @ y"
    using compress_append_after_text [OF assms(1,2), of "CHR 0x0A # y"] assms(3) by simp
qed

subsection \<open>Trimming, and the runs of line breaks\<close>

lemma trim_between_breaks:
  assumes "s \<noteq> []" "\<not> is_space (hd s)" "\<not> is_space (last s)"
  shows "trim s = s" and "trim (CHR 0x0A # s @ [CHR 0x0A]) = s"
proof -
  have r: "rev s \<noteq> []" "\<not> is_space (hd (rev s))"
    using assms by (simp_all add: hd_rev)
  show "trim s = s"
    unfolding trim_def dropWhile_space_id [OF assms(1,2)] dropWhile_space_id [OF r] by simp
  have "dropWhile is_space (CHR 0x0A # s @ [CHR 0x0A]) = s @ [CHR 0x0A]"
    using break_is_space assms(1,2) by (cases s) simp_all
  moreover have "dropWhile is_space (rev (s @ [CHR 0x0A])) = rev s"
    using break_is_space dropWhile_space_id [OF r] by simp
  ultimately show "trim (CHR 0x0A # s @ [CHR 0x0A]) = s"
    unfolding trim_def by simp
qed

lemma no_break_no_double: "CHR 0x0A \<notin> set l \<Longrightarrow> \<not> includes_str l [CHR 0x0A, CHR 0x0A]"
  by (induction l) (auto simp: startsWith_two_breaks)

lemma includes_suffix:
  "\<not> includes_str (c # cs) p \<Longrightarrow> \<not> includes_str cs p"
  by simp

lemma collapseBreaks_block:
  "\<not> includes_str t [CHR 0x0A, CHR 0x0A] \<Longrightarrow> collapseBreaks t = t"
proof (induction t rule: collapseBreaks.induct)
  case 1
  show ?case by simp
next
  case (2 c cs)
  from "2.prems" have cs: "\<not> includes_str cs [CHR 0x0A, CHR 0x0A]" by simp
  show ?case
  proof (cases "c = CHR 0x0A")
    case False
    with "2.IH"(2) [OF False cs] show ?thesis by simp
  next
    case True
    from "2.prems" True have "cs = [] \<or> hd cs \<noteq> CHR 0x0A"
      by (cases cs) (auto simp: startsWith_two_breaks)
    then have t: "takeWhile (\<lambda>x. x = CHR 0x0A) cs = []" and d: "dropWhile (\<lambda>x. x = CHR 0x0A) cs = cs"
      by (cases cs; auto)+
    from "2.IH"(1) [OF True refl] cs d have "collapseBreaks cs = cs" by simp
    with True t d show ?thesis by simp
  qed
qed

lemma collapseBreaks_between_blocks:
  assumes "\<not> includes_str (t @ [CHR 0x0A]) [CHR 0x0A, CHR 0x0A]"
    and "r = [] \<or> hd r \<noteq> CHR 0x0A"
  shows "collapseBreaks (t @ CHR 0x0A # CHR 0x0A # r) = t @ CHR 0x0A # CHR 0x0A # collapseBreaks r"
  using assms(1)
proof (induction t)
  case Nil
  from assms(2) have t: "takeWhile (\<lambda>x. x = CHR 0x0A) r = []" and d: "dropWhile (\<lambda>x. x = CHR 0x0A) r = r"
    by (cases r; auto)+
  show ?case using t d by simp
next
  case (Cons c cs)
  from Cons.prems have cs: "\<not> includes_str (cs @ [CHR 0x0A]) [CHR 0x0A, CHR 0x0A]" by simp
  note IH = Cons.IH [OF cs]
  show ?case
  proof (cases "c = CHR 0x0A")
    case False
    with IH show ?thesis by simp
  next
    case True
    from Cons.prems True have "cs \<noteq> [] \<and> hd cs \<noteq> CHR 0x0A"
      by (cases cs) (auto simp: startsWith_two_breaks)
    then have t: "takeWhile (\<lambda>x. x = CHR 0x0A) (cs @ CHR 0x0A # CHR 0x0A # r) = []"
      and d: "dropWhile (\<lambda>x. x = CHR 0x0A) (cs @ CHR 0x0A # CHR 0x0A # r) = cs @ CHR 0x0A # CHR 0x0A # r"
      by (cases cs; auto)+
    show ?thesis using True t d IH by simp
  qed
qed


subsection \<open>Joining and splitting\<close>

lemma join_with_Cons: "join_with sep (x # xs) = x @ concat (map (\<lambda>y. sep @ y) xs)"
  by (induction xs arbitrary: x) simp_all

lemma startsWith_break: "startsWith (c # cs) [CHR 0x0A] \<longleftrightarrow> c = CHR 0x0A"
  by (simp add: startsWith_def)

lemma split_from_no_break:
  "CHR 0x0A \<notin> set l \<Longrightarrow> split_from [CHR 0x0A] cur l = [cur @ l]"
  by (induction l arbitrary: cur) (auto simp: startsWith_break)

lemma split_from_line:
  "CHR 0x0A \<notin> set l \<Longrightarrow>
     split_from [CHR 0x0A] cur (l @ CHR 0x0A # rest) = (cur @ l) # split_from [CHR 0x0A] [] rest"
  by (induction l arbitrary: cur) (auto simp: startsWith_break)

lemma split_from_lines:
  "CHR 0x0A \<notin> set l \<Longrightarrow> \<forall>x \<in> set ls. CHR 0x0A \<notin> set x \<Longrightarrow>
     split_from [CHR 0x0A] cur (l @ concat (map (\<lambda>y. [CHR 0x0A] @ y) ls)) = (cur @ l) # ls"
proof (induction ls arbitrary: l cur)
  case Nil
  then show ?case by (simp add: split_from_no_break)
next
  case (Cons x xs)
  from Cons.prems have x: "CHR 0x0A \<notin> set x" and xs: "\<forall>x \<in> set xs. CHR 0x0A \<notin> set x"
    by simp_all
  from Cons.IH [OF x xs, of "[]"] show ?case
    by (simp add: split_from_line [OF Cons.prems(1)])
qed

lemma split_lines:
  "ls \<noteq> [] \<Longrightarrow> \<forall>x \<in> set ls. CHR 0x0A \<notin> set x \<Longrightarrow>
     split (join_with [CHR 0x0A] ls) [CHR 0x0A] = ls"
  by (cases ls) (simp_all add: split_def join_with_Cons split_from_lines [of _ _ "[]", simplified])

lemma includes_append_left:
  "\<not> includes_str (t @ y) [CHR 0x0A, CHR 0x0A] \<Longrightarrow> \<not> includes_str t [CHR 0x0A, CHR 0x0A]"
  by (simp add: includes_append_two_breaks)

lemma split_from_no_double:
  "\<not> includes_str t [CHR 0x0A, CHR 0x0A] \<Longrightarrow> split_from [CHR 0x0A, CHR 0x0A] cur t = [cur @ t]"
  by (induction t arbitrary: cur) simp_all

lemma split_from_block:
  "\<not> includes_str (t @ [CHR 0x0A]) [CHR 0x0A, CHR 0x0A] \<Longrightarrow>
     split_from [CHR 0x0A, CHR 0x0A] cur (t @ CHR 0x0A # CHR 0x0A # rest)
       = (cur @ t) # split_from [CHR 0x0A, CHR 0x0A] [] rest"
proof (induction t arbitrary: cur)
  case Nil
  show ?case by (simp add: startsWith_def)
next
  case (Cons c cs)
  from Cons.prems have cs: "\<not> includes_str (cs @ [CHR 0x0A]) [CHR 0x0A, CHR 0x0A]"
    and n: "\<not> startsWith (c # cs @ [CHR 0x0A]) [CHR 0x0A, CHR 0x0A]"
    by simp_all
  from n have "\<not> startsWith (c # cs @ CHR 0x0A # CHR 0x0A # rest) [CHR 0x0A, CHR 0x0A]"
    unfolding startsWith_two_breaks by (cases cs) auto
  with Cons.IH [OF cs] show ?case by simp
qed

lemma split_from_blocks:
  "\<forall>x \<in> set (t # ts). \<not> includes_str (x @ [CHR 0x0A]) [CHR 0x0A, CHR 0x0A] \<Longrightarrow>
     split_from [CHR 0x0A, CHR 0x0A] cur (t @ concat (map (\<lambda>y. [CHR 0x0A, CHR 0x0A] @ y) ts))
       = (cur @ t) # ts"
proof (induction ts arbitrary: t cur)
  case Nil
  then have "\<not> includes_str t [CHR 0x0A, CHR 0x0A]" by (simp add: includes_append_left)
  then show ?case by (simp add: split_from_no_double)
next
  case (Cons x xs)
  from Cons.prems have t: "\<not> includes_str (t @ [CHR 0x0A]) [CHR 0x0A, CHR 0x0A]"
    and xs: "\<forall>y \<in> set (x # xs). \<not> includes_str (y @ [CHR 0x0A]) [CHR 0x0A, CHR 0x0A]"
    by simp_all
  from Cons.IH [OF xs, of "[]"] show ?case
    by (simp add: split_from_block [OF t])
qed

lemma split_blocks:
  "ts \<noteq> [] \<Longrightarrow> \<forall>x \<in> set ts. \<not> includes_str (x @ [CHR 0x0A]) [CHR 0x0A, CHR 0x0A] \<Longrightarrow>
     split (join_with [CHR 0x0A, CHR 0x0A] ts) [CHR 0x0A, CHR 0x0A] = ts"
  by (cases ts)
     (simp_all add: split_def join_with_Cons split_from_blocks [of _ _ "[]", simplified])

lemma collapseBreaks_blocks:
  "\<forall>x \<in> set (t # ts). \<not> includes_str (x @ [CHR 0x0A]) [CHR 0x0A, CHR 0x0A] \<Longrightarrow>
   \<forall>x \<in> set ts. x \<noteq> [] \<and> hd x \<noteq> CHR 0x0A \<Longrightarrow>
     collapseBreaks (t @ concat (map (\<lambda>y. [CHR 0x0A, CHR 0x0A] @ y) ts))
       = t @ concat (map (\<lambda>y. [CHR 0x0A, CHR 0x0A] @ y) ts)"
proof (induction ts arbitrary: t)
  case Nil
  then have "\<not> includes_str t [CHR 0x0A, CHR 0x0A]" by (simp add: includes_append_left)
  then show ?case by (simp add: collapseBreaks_block)
next
  case (Cons x xs)
  from Cons.prems(1) have t: "\<not> includes_str (t @ [CHR 0x0A]) [CHR 0x0A, CHR 0x0A]"
    and xs: "\<forall>y \<in> set (x # xs). \<not> includes_str (y @ [CHR 0x0A]) [CHR 0x0A, CHR 0x0A]"
    by simp_all
  from Cons.prems(2) have x: "x \<noteq> []" "hd x \<noteq> CHR 0x0A"
    and xs': "\<forall>y \<in> set xs. y \<noteq> [] \<and> hd y \<noteq> CHR 0x0A"
    by simp_all
  let ?r = "x @ concat (map (\<lambda>y. [CHR 0x0A, CHR 0x0A] @ y) xs)"
  have r: "?r = [] \<or> hd ?r \<noteq> CHR 0x0A" using x by simp
  from collapseBreaks_between_blocks [OF t r] Cons.IH [OF xs xs'] show ?case by simp
qed


subsection \<open>A line of plain text\<close>

lemma text_lineD:
  assumes "text_line w"
  shows "w \<noteq> []" "CHR ''{'' \<notin> set w" "CHR 0x0A \<notin> set w" "\<not> is_space (hd w)"
    "\<not> is_space (last w)" "compress w = w"
  using assms by (simp_all add: text_line_def compress_eq_collapse_runs)

lemma scan_plain:
  "CHR ''{'' \<notin> set w \<Longrightarrow> scan None buf elems w = pushTextSpan (buf @ w) elems"
  by (induction w arbitrary: buf) auto

lemma parse_text_line:
  "text_line w \<Longrightarrow> parseInlineElementes w = Inr [IsTextSpan \<lparr>text = w\<rparr>]"
  by (simp add: parseInlineElementes_def scan_plain text_lineD pushTextSpan_def new_TextSpan_fixed)

lemma space_is_space: "is_space CHR '' ''"
  by (simp add: is_space_def)

lemma text_line_no_leading_space: "text_line w \<Longrightarrow> \<not> startsWith w '' ''"
  using space_is_space by (cases w) (auto simp: startsWith_def dest: text_lineD(4))

subsection \<open>The lines of a paragraph\<close>

lemma paragraph_first_line:
  assumes "text_line l" and "\<not> startsWith l ''* ''"
  shows "parse_line \<lparr>blocks = bs, paragraphElements = None, listItems = None\<rparr> l
           = Inr \<lparr>blocks = bs, paragraphElements = Some [IsTextSpan \<lparr>text = l\<rparr>],
                  listItems = None\<rparr>"
  using assms
  by (simp add: parse_line_def line_paragraph_def pushListItems_def parse_text_line)

lemma paragraph_next_line:
  assumes "text_line l" and "\<not> startsWith l ''* ''" and "pe \<noteq> []"
  shows "parse_line \<lparr>blocks = bs, paragraphElements = Some pe, listItems = None\<rparr> l
           = Inr \<lparr>blocks = bs,
                  paragraphElements =
                    Some (pe @ [IsTextSpan \<lparr>text = [CHR 0x0A]\<rparr>, IsTextSpan \<lparr>text = l\<rparr>]),
                  listItems = None\<rparr>"
  using assms text_line_no_leading_space [OF assms(1)]
  by (simp add: parse_line_def line_paragraph_def pushListItems_def parse_text_line
                new_TextSpan_break)

lemma paragraph_next_lines:
  assumes "\<forall>l \<in> set ls. text_line l \<and> \<not> startsWith l ''* ''" and "pe \<noteq> []"
  shows "forEach_err parse_line \<lparr>blocks = bs, paragraphElements = Some pe, listItems = None\<rparr> ls
           = Inr \<lparr>blocks = bs,
                  paragraphElements =
                    Some (pe @ concat (map (\<lambda>l. [IsTextSpan \<lparr>text = [CHR 0x0A]\<rparr>,
                                                   IsTextSpan \<lparr>text = l\<rparr>]) ls)),
                  listItems = None\<rparr>"
  using assms
proof (induction ls arbitrary: pe)
  case Nil
  show ?case by simp
next
  case (Cons l ls)
  from Cons.prems(1) have l: "text_line l" "\<not> startsWith l ''* ''"
    and ls: "\<forall>l \<in> set ls. text_line l \<and> \<not> startsWith l ''* ''"
    by simp_all
  have ne: "pe @ [IsTextSpan \<lparr>text = [CHR 0x0A]\<rparr>, IsTextSpan \<lparr>text = l\<rparr>] \<noteq> []" by simp
  show ?case
    by (simp add: paragraph_next_line [OF l Cons.prems(2)] Cons.IH [OF ls ne])
qed

subsection \<open>Merging the lines\<close>

lemma merge_line:
  assumes "x \<noteq> []" "\<not> is_space (last x)" "compress x = x" and "text_line l"
  shows "optimize_loop (pre @ [IsTextSpan \<lparr>text = x\<rparr>])
           (IsTextSpan \<lparr>text = [CHR 0x0A]\<rparr> # IsTextSpan \<lparr>text = l\<rparr> # rest)
         = optimize_loop (pre @ [IsTextSpan \<lparr>text = x @ [CHR 0x0A] @ l\<rparr>]) rest"
proof -
  note j = compress_join_break [OF assms(1-3) text_lineD(1,4,6) [OF assms(4)]]
  have 1: "optimize_step (pre @ [IsTextSpan \<lparr>text = x\<rparr>]) (IsTextSpan \<lparr>text = [CHR 0x0A]\<rparr>)
             = Inr (pre @ [IsTextSpan \<lparr>text = x @ [CHR 0x0A]\<rparr>])"
    by (simp add: step_text_after_text new_TextSpan_fixed [OF j(1)])
  have 2: "optimize_step (pre @ [IsTextSpan \<lparr>text = x @ [CHR 0x0A]\<rparr>]) (IsTextSpan \<lparr>text = l\<rparr>)
             = Inr (pre @ [IsTextSpan \<lparr>text = x @ [CHR 0x0A] @ l\<rparr>])"
    using new_TextSpan_fixed [OF j(2)] text_lineD(1) [OF assms(4)]
    by (simp add: step_text_after_text)
  show ?thesis by (simp add: 1 2)
qed

lemma merge_lines:
  assumes "x \<noteq> []" "\<not> is_space (last x)" "compress x = x" and "\<forall>l \<in> set ls. text_line l"
  shows "optimize_loop (pre @ [IsTextSpan \<lparr>text = x\<rparr>])
           (concat (map (\<lambda>l. [IsTextSpan \<lparr>text = [CHR 0x0A]\<rparr>, IsTextSpan \<lparr>text = l\<rparr>]) ls))
         = Inr (pre @ [IsTextSpan \<lparr>text = x @ concat (map (\<lambda>l. [CHR 0x0A] @ l) ls)\<rparr>])"
  using assms
proof (induction ls arbitrary: x)
  case Nil
  show ?case by simp
next
  case (Cons l ls)
  from Cons.prems(4) have l: "text_line l" and ls: "\<forall>l \<in> set ls. text_line l" by simp_all
  let ?y = "x @ [CHR 0x0A] @ l"
  have y: "?y \<noteq> []" "\<not> is_space (last ?y)" "compress ?y = ?y"
    using text_lineD(1,5) [OF l]
      compress_join_break(2) [OF Cons.prems(1-3) text_lineD(1,4,6) [OF l]]
    by simp_all
  have e: "concat (map (\<lambda>l. [IsTextSpan \<lparr>text = [CHR 0x0A]\<rparr>, IsTextSpan \<lparr>text = l\<rparr>]) (l # ls))
             = IsTextSpan \<lparr>text = [CHR 0x0A]\<rparr> # IsTextSpan \<lparr>text = l\<rparr>
               # concat (map (\<lambda>l. [IsTextSpan \<lparr>text = [CHR 0x0A]\<rparr>, IsTextSpan \<lparr>text = l\<rparr>]) ls)"
    by simp
  have c: "x @ concat (map (\<lambda>l. [CHR 0x0A] @ l) (l # ls))
             = ?y @ concat (map (\<lambda>l. [CHR 0x0A] @ l) ls)"
    by simp
  show ?case
    unfolding e c merge_line [OF Cons.prems(1-3) l] by (rule Cons.IH [OF y ls])
qed

lemma optimize_paragraph:
  assumes "\<forall>l \<in> set (l # ls). text_line l"
  shows "optimizeElements
           (IsTextSpan \<lparr>text = l\<rparr>
            # concat (map (\<lambda>l. [IsTextSpan \<lparr>text = [CHR 0x0A]\<rparr>, IsTextSpan \<lparr>text = l\<rparr>]) ls))
         = Inr [IsTextSpan \<lparr>text = join_with [CHR 0x0A] (l # ls)\<rparr>]"
proof -
  from assms have l: "text_line l" and ls: "\<forall>l \<in> set ls. text_line l" by simp_all
  from merge_lines [OF text_lineD(1,5,6) [OF l] ls, of "[]"] show ?thesis
    by (simp add: optimizeElements_def optimize_step_def join_with_Cons)
qed

lemma parse_paragraph_block:
  assumes "block_ok (PlainParagraph ls)"
  shows "parse_block bs (block_text (PlainParagraph ls))
           = Inr (bs @ [block_tree (PlainParagraph ls)])"
proof -
  from assms obtain l ls' where ls: "ls = l # ls'" by (cases ls) auto
  from assms have ok: "\<forall>l \<in> set ls. text_line l \<and> \<not> startsWith l ''* ''"
    by (simp add: list_all_iff)
  then have l: "text_line l" "\<not> startsWith l ''* ''"
    and ls': "\<forall>l \<in> set ls'. text_line l \<and> \<not> startsWith l ''* ''"
    and tl: "\<forall>l \<in> set (l # ls'). text_line l"
    unfolding ls by simp_all
  from ok have nb: "\<forall>l \<in> set ls. CHR 0x0A \<notin> set l" by (auto dest: text_lineD(3))
  have sp: "split (block_text (PlainParagraph ls)) [CHR 0x0A] = l # ls'"
    using split_lines [OF _ nb] ls by (simp add: block_text_def)
  have "forEach_err parse_line \<lparr>blocks = bs, paragraphElements = None, listItems = None\<rparr> (l # ls')
          = Inr \<lparr>blocks = bs,
                 paragraphElements =
                   Some (IsTextSpan \<lparr>text = l\<rparr>
                         # concat (map (\<lambda>l. [IsTextSpan \<lparr>text = [CHR 0x0A]\<rparr>,
                                              IsTextSpan \<lparr>text = l\<rparr>]) ls')),
                 listItems = None\<rparr>"
    using paragraph_next_lines [OF ls', of "[IsTextSpan \<lparr>text = l\<rparr>]" bs]
    by (simp add: paragraph_first_line [OF l])
  then show ?thesis
    unfolding parse_block_def sp
    by (simp add: pushParagraphElements_def pushListItems_def optimize_paragraph [OF tl] ls)
qed


subsection \<open>The lines of a list\<close>

lemma forEach_err_append:
  "forEach_err f st (xs @ ys) =
     (case forEach_err f st xs of Inl e \<Rightarrow> Inl e | Inr st' \<Rightarrow> forEach_err f st' ys)"
  by (induction xs arbitrary: st) (simp_all split: sum.splits)

lemma item_first_line:
  assumes "text_line a"
  shows "parse_line \<lparr>blocks = bs, paragraphElements = None, listItems = lo\<rparr> (''* '' @ a)
           = Inr \<lparr>blocks = bs, paragraphElements = None,
                  listItems = Some ((case lo of None \<Rightarrow> [] | Some items \<Rightarrow> items)
                                    @ [[IsTextSpan \<lparr>text = a\<rparr>]])\<rparr>"
  by (simp add: parse_line_def startsWith_def line_item_def pushParagraphElements_def
                parse_text_line [OF assms] push_to_last_nonempty)

lemma item_second_line:
  assumes "text_line b" and "items \<noteq> []" and "last items \<noteq> []"
  shows "parse_line \<lparr>blocks = bs, paragraphElements = None, listItems = Some items\<rparr> (''  '' @ b)
           = Inr \<lparr>blocks = bs, paragraphElements = None,
                  listItems =
                    Some (butlast items
                          @ [last items
                             @ [IsTextSpan \<lparr>text = [CHR 0x0A]\<rparr>, IsTextSpan \<lparr>text = b\<rparr>]])\<rparr>"
proof -
  have s: "\<not> startsWith (''  '' @ b) ''* ''" "startsWith (''  '' @ b) ''  ''"
    by (simp_all add: startsWith_def)
  have t: "\<not> startsWith (''  '' @ b) ''   ''"
    using text_lineD(1,4) [OF assms(1)] space_is_space by (cases b) (auto simp: startsWith_def)
  show ?thesis
    using assms(2,3) s t
    by (simp add: parse_line_def line_continuation_def new_TextSpan_break
                  parse_text_line [OF assms(1)] push_to_last_nonempty)
qed

lemma item_all_lines:
  assumes "item_ok it"
  shows "forEach_err parse_line \<lparr>blocks = bs, paragraphElements = None, listItems = lo\<rparr>
           (item_lines it)
         = Inr \<lparr>blocks = bs, paragraphElements = None,
                listItems = Some ((case lo of None \<Rightarrow> [] | Some items \<Rightarrow> items)
                                  @ [item_elements it])\<rparr>"
proof (cases it)
  case (Pair a bo)
  show ?thesis
  proof (cases bo)
    case None
    with assms Pair have a: "text_line a" by simp
    show ?thesis
      unfolding Pair None item_lines.simps forEach_err.simps item_first_line [OF a] by simp
  next
    case (Some b)
    with assms Pair have a: "text_line a" and b: "text_line b" by simp_all
    let ?items = "(case lo of None \<Rightarrow> [] | Some items \<Rightarrow> items) @ [[IsTextSpan \<lparr>text = a\<rparr>]]"
    have i: "?items \<noteq> []" "last ?items \<noteq> []" by simp_all
    show ?thesis
      unfolding Pair Some item_lines.simps forEach_err.simps item_first_line [OF a] sum.case
        item_second_line [OF b i]
      by simp
  qed
qed

lemma list_all_lines:
  assumes "\<forall>it \<in> set (it # its). item_ok it"
  shows "forEach_err parse_line \<lparr>blocks = bs, paragraphElements = None, listItems = lo\<rparr>
           (concat (map item_lines (it # its)))
         = Inr \<lparr>blocks = bs, paragraphElements = None,
                listItems = Some ((case lo of None \<Rightarrow> [] | Some items \<Rightarrow> items)
                                  @ map item_elements (it # its))\<rparr>"
  using assms
proof (induction its arbitrary: it lo)
  case Nil
  then show ?case by (simp add: item_all_lines)
next
  case (Cons it' its)
  from Cons.prems have it: "item_ok it" and rest: "\<forall>it \<in> set (it' # its). item_ok it"
    by simp_all
  have e: "concat (map item_lines (it # it' # its))
          = item_lines it @ concat (map item_lines (it' # its))"
    by simp
  let ?L = "(case lo of None \<Rightarrow> [] | Some items \<Rightarrow> items)"
  show ?case
    unfolding e forEach_err_append item_all_lines [OF it] sum.case
    using Cons.IH [OF rest, where lo = "Some (?L @ [item_elements it])"] by simp
qed

lemma optimize_item:
  assumes "item_ok it"
  shows "optimizeElements (item_elements it) = Inr (item_tree it)"
proof (cases it)
  case (Pair a bo)
  show ?thesis
  proof (cases bo)
    case None
    then show ?thesis unfolding Pair by (simp add: optimizeElements_def optimize_step_def)
  next
    case (Some b)
    with assms Pair have a: "text_line a" and b: "text_line b" by simp_all
    from merge_line [OF text_lineD(1,5,6) [OF a] b, of "[]" "[]"]
    show ?thesis unfolding Pair Some by (simp add: optimizeElements_def optimize_step_def)
  qed
qed

lemma optimize_items:
  "\<forall>it \<in> set its. item_ok it \<Longrightarrow>
     map_err optimizeElements (map item_elements its) = Inr (map item_tree its)"
  by (induction its) (simp_all add: optimize_item)

lemma item_lines_no_break:
  "item_ok it \<Longrightarrow> l \<in> set (item_lines it) \<Longrightarrow> CHR 0x0A \<notin> set l"
  by (cases it rule: item_lines.cases) (auto dest: text_lineD(3))

lemma parse_list_block:
  assumes "block_ok (PlainList its)"
  shows "parse_block bs (block_text (PlainList its)) = Inr (bs @ [block_tree (PlainList its)])"
proof -
  from assms obtain it its' where its: "its = it # its'" by (cases its) auto
  from assms have ok: "\<forall>it \<in> set its. item_ok it" by (simp add: list_all_iff)
  have ne: "concat (map item_lines its) \<noteq> []"
    unfolding its by (cases it rule: item_lines.cases) simp_all
  have nb: "\<forall>l \<in> set (concat (map item_lines its)). CHR 0x0A \<notin> set l"
    using ok item_lines_no_break by auto
  have sp: "split (block_text (PlainList its)) [CHR 0x0A] = concat (map item_lines its)"
    using split_lines [OF ne nb] by (simp add: block_text_def)
  have "forEach_err parse_line \<lparr>blocks = bs, paragraphElements = None, listItems = None\<rparr>
          (concat (map item_lines its))
        = Inr \<lparr>blocks = bs, paragraphElements = None,
               listItems = Some (map item_elements its)\<rparr>"
    using list_all_lines [of it its' bs None] ok unfolding its by simp
  then show ?thesis
    unfolding parse_block_def sp
    by (simp add: pushParagraphElements_def pushListItems_def optimize_items [OF ok])
qed

lemma parse_plain_block:
  "block_ok b \<Longrightarrow> parse_block bs (block_text b) = Inr (bs @ [block_tree b])"
  by (cases b) (simp_all only: parse_paragraph_block parse_list_block)

lemma parse_plain_blocks:
  "\<forall>b \<in> set blks. block_ok b \<Longrightarrow>
     forEach_err parse_block bs (map block_text blks) = Inr (bs @ map block_tree blks)"
  by (induction blks arbitrary: bs) (simp_all add: parse_plain_block)


subsection \<open>The text written for a block\<close>

lemma indentFirstBreak_plain: "CHR 0x0A \<notin> set a \<Longrightarrow> indentFirstBreak a = a"
  by (induction a) auto

lemma indentFirstBreak_break:
  "CHR 0x0A \<notin> set a \<Longrightarrow> indentFirstBreak (a @ [CHR 0x0A] @ b) = a @ [CHR 0x0A] @ ''  '' @ b"
  by (induction a) auto

lemma item_written:
  assumes "item_ok it"
  shows "''* '' @ indentFirstBreak (join inline_toString (item_tree it))
           = join_with [CHR 0x0A] (item_lines it)"
proof (cases it)
  case (Pair a bo)
  show ?thesis
  proof (cases bo)
    case None
    with assms Pair have "CHR 0x0A \<notin> set a" by (simp add: text_lineD(3))
    then show ?thesis
      unfolding Pair None by (simp add: join_def TextSpan_toString_def indentFirstBreak_plain)
  next
    case (Some b)
    with assms Pair have "CHR 0x0A \<notin> set a" by (simp add: text_lineD(3))
    from indentFirstBreak_break [OF this, of b] show ?thesis
      unfolding Pair Some by (simp add: join_def TextSpan_toString_def)
  qed
qed

lemma List_loop_eq:
  "List_loop str items =
     str @ concat (map (\<lambda>item. [CHR 0x0A] @ ''* '' @ indentFirstBreak (join inline_toString item))
                     items)"
  by (induction items arbitrary: str) simp_all

lemma join_with_append:
  "xs \<noteq> [] \<Longrightarrow> ys \<noteq> [] \<Longrightarrow> join_with sep (xs @ ys) = join_with sep xs @ sep @ join_with sep ys"
  by (cases xs; cases ys) (simp_all add: join_with_Cons)

lemma item_lines_nonempty: "item_lines it \<noteq> []"
  by (cases it rule: item_lines.cases) simp_all

lemma lines_of_items:
  "join_with [CHR 0x0A] (concat (map item_lines (it # its)))
     = join_with [CHR 0x0A] (item_lines it)
       @ concat (map (\<lambda>it. [CHR 0x0A] @ join_with [CHR 0x0A] (item_lines it)) its)"
proof (induction its arbitrary: it)
  case Nil
  show ?case by simp
next
  case (Cons it' its)
  have ne: "concat (map item_lines (it' # its)) \<noteq> []"
    using item_lines_nonempty [of it'] by simp
  have e: "concat (map item_lines (it # it' # its))
          = item_lines it @ concat (map item_lines (it' # its))"
    by simp
  show ?case
    unfolding e join_with_append [OF item_lines_nonempty ne] Cons.IH by simp
qed

lemma list_written:
  assumes "\<forall>it \<in> set (it # its). item_ok it"
  shows "List_toString (map item_tree (it # its))
           = [CHR 0x0A] @ block_text (PlainList (it # its)) @ [CHR 0x0A]"
proof -
  from assms have it: "item_ok it" and its: "\<forall>it \<in> set its. item_ok it" by simp_all
  have m: "map (\<lambda>item. [CHR 0x0A] @ ''* '' @ indentFirstBreak (join inline_toString item))
             (map item_tree its)
           = map (\<lambda>it. [CHR 0x0A] @ join_with [CHR 0x0A] (item_lines it)) its"
    unfolding map_map o_def
  proof (rule map_cong [OF refl])
    fix x
    assume "x \<in> set its"
    with its have "item_ok x" by simp
    from item_written [OF this]
    show "[CHR 0x0A] @ ''* '' @ indentFirstBreak (join inline_toString (item_tree x))
            = [CHR 0x0A] @ join_with [CHR 0x0A] (item_lines x)"
      by simp
  qed
  have "List_toString (map item_tree (it # its))
          = [CHR 0x0A]
            @ (''* '' @ indentFirstBreak (join inline_toString (item_tree it)))
            @ concat (map (\<lambda>item. [CHR 0x0A] @ ''* ''
                                   @ indentFirstBreak (join inline_toString item))
                        (map item_tree its))
            @ [CHR 0x0A]"
    by (simp add: List_toString_def List_loop_eq)
  then show ?thesis
    unfolding m item_written [OF it] block_text_def block_lines.simps lines_of_items by simp
qed

lemma block_written:
  assumes "block_ok b"
  shows "block_toString (block_tree b) = [CHR 0x0A] @ block_text b @ [CHR 0x0A]"
proof (cases b)
  case (PlainParagraph ls)
  show ?thesis
    unfolding PlainParagraph
    by (simp add: Paragraph_toString_def join_def TextSpan_toString_def block_text_def)
next
  case (PlainList its)
  with assms obtain it its' where its: "its = it # its'" by (cases its) auto
  from assms have "\<forall>it \<in> set (it # its'). item_ok it"
    unfolding PlainList its by (simp add: list_all_iff)
  from list_written [OF this] show ?thesis unfolding PlainList its by simp
qed

lemma blocks_written:
  "concat (map (\<lambda>t. [CHR 0x0A] @ t @ [CHR 0x0A]) (t # ts))
     = CHR 0x0A # (t @ concat (map (\<lambda>y. [CHR 0x0A, CHR 0x0A] @ y) ts)) @ [CHR 0x0A]"
  by (induction ts arbitrary: t) simp_all

subsection \<open>The shape of the text of a block\<close>

lemma joined_lines_last:
  "ls \<noteq> [] \<Longrightarrow> \<forall>l \<in> set ls. l \<noteq> [] \<Longrightarrow> last (join_with sep ls) = last (last ls)"
  by (induction sep ls rule: join_with.induct) (simp_all add: join_with_Cons)

lemma joined_lines_no_double:
  "ls \<noteq> [] \<Longrightarrow> \<forall>l \<in> set ls. l \<noteq> [] \<and> CHR 0x0A \<notin> set l \<Longrightarrow>
     \<not> includes_str (join_with [CHR 0x0A] ls @ [CHR 0x0A]) [CHR 0x0A, CHR 0x0A]"
proof (induction "[CHR 0x0A]" ls rule: join_with.induct)
  case 1
  then show ?case by simp
next
  case (2 x)
  then have "x \<noteq> []" "CHR 0x0A \<notin> set x" by simp_all
  then have "\<not> ends_with_break x" by (metis ends_with_break_def last_in_set)
  with 2 show ?case
    by (simp add: includes_append_two_breaks no_break_no_double startsWith_def)
next
  case (3 x y ys)
  from "3.prems" have x: "x \<noteq> []" "CHR 0x0A \<notin> set x" and y: "y \<noteq> []" "CHR 0x0A \<notin> set y"
    and rest: "\<forall>l \<in> set (y # ys). l \<noteq> [] \<and> CHR 0x0A \<notin> set l"
    by simp_all
  let ?R = "join_with [CHR 0x0A] (y # ys) @ [CHR 0x0A]"
  have IH: "\<not> includes_str ?R [CHR 0x0A, CHR 0x0A]" using "3.hyps" rest by simp
  from y have "hd ?R \<noteq> CHR 0x0A" by (cases y) (auto simp: join_with_Cons)
  then have "\<not> startsWith (CHR 0x0A # ?R) [CHR 0x0A, CHR 0x0A]"
    unfolding startsWith_two_breaks by (cases ?R) auto
  with IH have "\<not> includes_str (CHR 0x0A # ?R) [CHR 0x0A, CHR 0x0A]" by simp
  moreover from x have "\<not> ends_with_break x"
    by (metis ends_with_break_def last_in_set)
  moreover have "join_with [CHR 0x0A] (x # y # ys) @ [CHR 0x0A] = x @ CHR 0x0A # ?R" by simp
  ultimately show ?case
    using no_break_no_double [OF x(2)] by (simp only: includes_append_two_breaks) simp
qed

lemma last_concat_nonempty:
  "xss \<noteq> [] \<Longrightarrow> \<forall>xs \<in> set xss. xs \<noteq> [] \<Longrightarrow> last (concat xss) = last (last xss)"
proof (induction xss)
  case Nil
  then show ?case by simp
next
  case (Cons xs xss)
  show ?case
  proof (cases "xss = []")
    case True
    then show ?thesis by simp
  next
    case False
    with Cons.prems have "concat xss \<noteq> []" by (cases xss) auto
    with Cons False show ?thesis by simp
  qed
qed

lemma block_lines_shape:
  assumes "block_ok b"
  shows "block_lines b \<noteq> []"
    and "\<forall>l \<in> set (block_lines b). l \<noteq> [] \<and> CHR 0x0A \<notin> set l"
    and "\<not> is_space (hd (hd (block_lines b)))"
    and "\<not> is_space (last (last (block_lines b)))"
proof -
  have star: "\<not> is_space CHR ''*''" by (simp add: is_space_def)
  have item: "l \<noteq> [] \<and> CHR 0x0A \<notin> set l" if "item_ok it" "l \<in> set (item_lines it)" for it l
    using that by (cases it rule: item_lines.cases) (auto dest: text_lineD(3))
  have item_last: "\<not> is_space (last (last (item_lines it)))" if "item_ok it" for it
    using that by (cases it rule: item_lines.cases) (auto dest: text_lineD(1,5))
  show "block_lines b \<noteq> []"
  proof (cases b)
    case (PlainParagraph ls)
    with assms show ?thesis by simp
  next
    case (PlainList its)
    with assms obtain it its' where "its = it # its'" by (cases its) auto
    then show ?thesis unfolding PlainList using item_lines_nonempty [of it] by simp
  qed
  show "\<forall>l \<in> set (block_lines b). l \<noteq> [] \<and> CHR 0x0A \<notin> set l"
    using assms item by (cases b) (auto simp: list_all_iff dest: text_lineD(1,3))
  show "\<not> is_space (hd (hd (block_lines b)))"
  proof (cases b)
    case (PlainParagraph ls)
    with assms show ?thesis by (cases ls) (auto dest: text_lineD(4))
  next
    case (PlainList its)
    with assms obtain it its' where "its = it # its'" by (cases its) auto
    then show ?thesis
      unfolding PlainList using star item_lines_nonempty [of it]
      by (cases it rule: item_lines.cases) simp_all
  qed
  show "\<not> is_space (last (last (block_lines b)))"
  proof (cases b)
    case (PlainParagraph ls)
    with assms have "ls \<noteq> []" "text_line (last ls)" by (auto simp: list_all_iff)
    then show ?thesis unfolding PlainParagraph by (simp add: text_lineD(5))
  next
    case (PlainList its)
    with assms have ne: "its \<noteq> []" and ok: "item_ok (last its)" by (auto simp: list_all_iff)
    from ne have "last (concat (map item_lines its)) = last (item_lines (last its))"
      using last_concat_nonempty [of "map item_lines its"] item_lines_nonempty
      by (simp add: last_map)
    then show ?thesis unfolding PlainList using item_last [OF ok] by simp
  qed
qed

lemma block_text_shape:
  assumes "block_ok b"
  shows "block_text b \<noteq> []" and "\<not> is_space (hd (block_text b))"
    and "\<not> is_space (last (block_text b))"
    and "\<not> includes_str (block_text b @ [CHR 0x0A]) [CHR 0x0A, CHR 0x0A]"
proof -
  note s = block_lines_shape [OF assms]
  from s(1) obtain l ls where ls: "block_lines b = l # ls" by (cases "block_lines b") auto
  with s(2) have l: "l \<noteq> []" by simp
  show "block_text b \<noteq> []" unfolding block_text_def ls join_with_Cons using l by simp
  show "\<not> is_space (hd (block_text b))"
    using s(3) l unfolding block_text_def ls join_with_Cons by simp
  show "\<not> is_space (last (block_text b))"
    unfolding block_text_def using joined_lines_last [OF s(1)] s(2,4) by simp
  show "\<not> includes_str (block_text b @ [CHR 0x0A]) [CHR 0x0A, CHR 0x0A]"
    unfolding block_text_def by (rule joined_lines_no_double [OF s(1,2)])
qed


subsection \<open>The document\<close>

lemma document_text_shape:
  assumes "canonical_source bs"
  shows "document_text bs \<noteq> []" and "\<not> is_space (hd (document_text bs))"
    and "\<not> is_space (last (document_text bs))"
proof -
  from assms obtain b bs' where bs: "bs = b # bs'"
    by (cases bs) (auto simp: canonical_source_def)
  from assms have ok: "\<forall>b \<in> set bs. block_ok b"
    by (simp add: canonical_source_def list_all_iff)
  then have b: "block_ok b" unfolding bs by simp
  have ne: "\<forall>t \<in> set (map block_text bs). t \<noteq> []"
    using ok block_text_shape(1) by auto
  show "document_text bs \<noteq> []"
    unfolding document_text_def bs list.map join_with_Cons
    using block_text_shape(1) [OF b] by simp
  show "\<not> is_space (hd (document_text bs))"
    unfolding document_text_def bs list.map join_with_Cons
    using block_text_shape(1,2) [OF b] by simp
  have "last (document_text bs) = last (block_text (last bs))"
    unfolding document_text_def using joined_lines_last [OF _ ne] bs by (simp add: last_map)
  moreover have "block_ok (last bs)" using ok bs by simp
  ultimately show "\<not> is_space (last (document_text bs))"
    using block_text_shape(3) by simp
qed

lemma parse_document:
  assumes "canonical_source bs"
  shows "parseDescription (document_text bs) = Inr (document_tree bs)"
proof -
  from assms obtain b bs' where bs: "bs = b # bs'"
    by (cases bs) (auto simp: canonical_source_def)
  from assms have ok: "\<forall>b \<in> set bs. block_ok b"
    by (simp add: canonical_source_def list_all_iff)
  let ?ts = "map block_text bs"
  have ts: "?ts \<noteq> []" using bs by simp
  have nd: "\<forall>t \<in> set ?ts. \<not> includes_str (t @ [CHR 0x0A]) [CHR 0x0A, CHR 0x0A]"
    using ok block_text_shape(4) by auto
  have hd: "\<forall>t \<in> set (map block_text bs'). t \<noteq> [] \<and> hd t \<noteq> CHR 0x0A"
  proof
    fix t
    assume "t \<in> set (map block_text bs')"
    then obtain b' where b': "b' \<in> set bs'" "t = block_text b'" by auto
    with ok bs have "block_ok b'" by simp
    from block_text_shape(1,2) [OF this] break_is_space
    show "t \<noteq> [] \<and> hd t \<noteq> CHR 0x0A" unfolding b'(2) by metis
  qed
  have 1: "trim (document_text bs) = document_text bs"
    by (rule trim_between_breaks(1) [OF document_text_shape [OF assms]])
  have 2: "collapseBreaks (document_text bs) = document_text bs"
    unfolding document_text_def bs list.map join_with_Cons
    by (rule collapseBreaks_blocks [OF nd [unfolded bs list.map] hd])
  have 3: "split (document_text bs) [CHR 0x0A, CHR 0x0A] = ?ts"
    unfolding document_text_def by (rule split_blocks [OF ts nd])
  show ?thesis
    unfolding parseDescription_def 1 2 Let_def 3 parse_plain_blocks [OF ok]
    by (simp add: document_tree_def)
qed

lemma write_document:
  assumes "canonical_source bs"
  shows "Description_toString (document_tree bs) = document_text bs"
proof -
  from assms obtain b bs' where bs: "bs = b # bs'"
    by (cases bs) (auto simp: canonical_source_def)
  from assms have ok: "\<forall>b \<in> set bs. block_ok b"
    by (simp add: canonical_source_def list_all_iff)
  have e: "map block_text bs = block_text b # map block_text bs'" unfolding bs by simp
  have "join block_toString (map block_tree bs)
          = concat (map (\<lambda>t. [CHR 0x0A] @ t @ [CHR 0x0A]) (map block_text bs))"
    unfolding join_def map_map o_def using ok block_written
    by (auto intro!: arg_cong [where f = concat])
  also have "\<dots> = CHR 0x0A # document_text bs @ [CHR 0x0A]"
    unfolding e blocks_written document_text_def join_with_Cons by simp
  finally show ?thesis
    unfolding Description_toString_def document_tree_def
    by (simp add: trim_between_breaks(2) [OF document_text_shape [OF assms]])
qed

text \<open>
  Claim C7. If parsing \<open>s\<close> succeeds and the document obtained is written as \<open>s\<close>
  again, then parsing what was written succeeds and gives a document that is written in
  the same way. The second conjunct shows such texts: a document made of paragraphs of
  plain lines and of lists whose items are a plain line with at most one continuation
  line is parsed to the tree expected, this tree is written as the text it came from, and
  parsing what is written gives the tree again.
\<close>

theorem canonical_document_reparse:
  "(parseDescription s = Inr d \<and> Description_toString d = s \<longrightarrow>
      (\<exists>d'. parseDescription (Description_toString d) = Inr d'
            \<and> Description_toString d' = Description_toString d))
   \<and> (canonical_source bs \<longrightarrow>
        parseDescription (document_text bs) = Inr (document_tree bs)
        \<and> Description_toString (document_tree bs) = document_text bs
        \<and> parseDescription (Description_toString (document_tree bs)) = Inr (document_tree bs))"
  by (simp add: parse_document write_document)


theorem canonical_document_reparse_witness:
  "parseDescription ''Hello {e world}.''
     = Inr \<lparr>elements =
              [Paragraph [IsTextSpan \<lparr>text = ''Hello ''\<rparr>,
                          IsCommandSpan \<lparr>type = EMPHASIS, textSpan = \<lparr>text = ''world''\<rparr>\<rparr>,
                          IsTextSpan \<lparr>text = ''.''\<rparr>]]\<rparr>
   \<and> (\<exists>d'. parseDescription
               (Description_toString
                  \<lparr>elements =
                     [Paragraph [IsTextSpan \<lparr>text = ''Hello ''\<rparr>,
                                 IsCommandSpan \<lparr>type = EMPHASIS, textSpan = \<lparr>text = ''world''\<rparr>\<rparr>,
                                 IsTextSpan \<lparr>text = ''.''\<rparr>]]\<rparr>) = Inr d'
            \<and> Description_toString d' = ''Hello {e world}.'')
   \<and> canonical_source
         [PlainParagraph [''Hello world.'', ''*second line''],
          PlainList [(''item one'', Some ''more''), (''item two'', None)]]
   \<and> document_text
         [PlainParagraph [''Hello world.'', ''*second line''],
          PlainList [(''item one'', Some ''more''), (''item two'', None)]]
       = ''Hello world.\<newline>*second line\<newline>\<newline>* item one\<newline>  more\<newline>* item two''
   \<and> parseDescription ''Hello world.\<newline>*second line\<newline>\<newline>* item one\<newline>  more\<newline>* item two''
       = Inr \<lparr>elements =
                [Paragraph [IsTextSpan \<lparr>text = ''Hello world.\<newline>*second line''\<rparr>],
                 List [[IsTextSpan \<lparr>text = ''item one\<newline>more''\<rparr>],
                       [IsTextSpan \<lparr>text = ''item two''\<rparr>]]]\<rparr>
   \<and> Description_toString
         \<lparr>elements =
            [Paragraph [IsTextSpan \<lparr>text = ''Hello world.\<newline>*second line''\<rparr>],
             List [[IsTextSpan \<lparr>text = ''item one\<newline>more''\<rparr>],
                   [IsTextSpan \<lparr>text = ''item two''\<rparr>]]]\<rparr>
       = ''Hello world.\<newline>*second line\<newline>\<newline>* item one\<newline>  more\<newline>* item two''"
proof -
  let ?s = "''Hello {e world}.''"
  let ?d = "\<lparr>elements =
              [Paragraph [IsTextSpan \<lparr>text = ''Hello ''\<rparr>,
                          IsCommandSpan \<lparr>type = EMPHASIS, textSpan = \<lparr>text = ''world''\<rparr>\<rparr>,
                          IsTextSpan \<lparr>text = ''.''\<rparr>]]\<rparr>"
  let ?bs = "[PlainParagraph [''Hello world.'', ''*second line''],
              PlainList [(''item one'', Some ''more''), (''item two'', None)]]"
  have p: "parseDescription ?s = Inr ?d" by code_simp
  have t: "Description_toString ?d = ?s" by code_simp
  have c: "canonical_source ?bs" by code_simp
  have dt: "document_text ?bs
              = ''Hello world.\<newline>*second line\<newline>\<newline>* item one\<newline>  more\<newline>* item two''"
    by code_simp
  have tr: "document_tree ?bs
              = \<lparr>elements =
                   [Paragraph [IsTextSpan \<lparr>text = ''Hello world.\<newline>*second line''\<rparr>],
                    List [[IsTextSpan \<lparr>text = ''item one\<newline>more''\<rparr>],
                          [IsTextSpan \<lparr>text = ''item two''\<rparr>]]]\<rparr>"
    by code_simp
  note inst = canonical_document_reparse [of ?s ?d ?bs]
  from inst [THEN conjunct1, rule_format, OF conjI [OF p t]]
  have 1: "\<exists>d'. parseDescription (Description_toString ?d) = Inr d'
                \<and> Description_toString d' = ?s"
    unfolding t .
  from inst [THEN conjunct2, rule_format, OF c]
  have 2: "parseDescription (document_text ?bs) = Inr (document_tree ?bs)"
    and 3: "Description_toString (document_tree ?bs) = document_text ?bs"
    by blast+
  from p 1 c dt 2 [unfolded dt tr] 3 [unfolded dt tr] show ?thesis by blast
qed


end
